theory Spec2Isabelle
  imports Main "HOL-Library.AList"
begin

section \<open>Python values and the object store\<close>

text \<open>
  The loader of \<^verbatim>\<open>httprunner/loader.py\<close> works on the values that the JSON and YAML
  parsers return: scalars, lists and dicts. Lists and dicts are mutable objects with an
  identity, and the loader mutates them in place (\<^verbatim>\<open>popitem\<close>, item assignment), so they
  live in a store: a list of objects, an address being an index into it. Allocation
  appends to the store; nothing is ever freed.

  Dict keys are kept up to Python's equality of hashable scalars (\<^verbatim>\<open>True == 1\<close>), a dict
  is an association list in insertion order with distinct keys. Strings are lists of
  8-bit characters, integers are unbounded; floating point numbers are left out.
\<close>

datatype error =
    FileFormatError | FileNotFound | ApiNotFound
  | KeyError | TypeError | ValueError | AttributeError | ImportError | YAMLError | RecursionError

datatype key = KNone | KInt int | KStr string

type_synonym addr = nat

datatype pval = PNone | PBool bool | PInt int | PStr string | PRef addr

datatype obj = ODict "(key \<times> pval) list" | OList "pval list"

type_synonym store = "obj list"

text \<open>The content of a parsed file, before it becomes objects of the store.\<close>

datatype jval =
    JNone | JBool bool | JInt int | JStr string
  | JList "jval list" | JDict "(key \<times> jval) list"

text \<open>\<^verbatim>\<open>hash(v)\<close>: the key a value has in a dict; lists and dicts are unhashable.\<close>

fun to_key :: "pval \<Rightarrow> key option" where
  "to_key PNone = Some KNone"
| "to_key (PBool b) = Some (KInt (if b then 1 else 0))"
| "to_key (PInt i) = Some (KInt i)"
| "to_key (PStr s) = Some (KStr s)"
| "to_key (PRef a) = None"

fun of_key :: "key \<Rightarrow> pval" where
  "of_key KNone = PNone"
| "of_key (KInt i) = PInt i"
| "of_key (KStr s) = PStr s"

definition get_dict :: "store \<Rightarrow> pval \<Rightarrow> (key \<times> pval) list option" where
  "get_dict h v =
     (case v of
        PRef a \<Rightarrow> (if a < length h then (case h ! a of ODict es \<Rightarrow> Some es | OList vs \<Rightarrow> None) else None)
      | _ \<Rightarrow> None)"

definition get_list :: "store \<Rightarrow> pval \<Rightarrow> pval list option" where
  "get_list h v =
     (case v of
        PRef a \<Rightarrow> (if a < length h then (case h ! a of OList vs \<Rightarrow> Some vs | ODict es \<Rightarrow> None) else None)
      | _ \<Rightarrow> None)"

definition new_obj :: "obj \<Rightarrow> store \<Rightarrow> pval \<times> store" where
  "new_obj ob h = (PRef (length h), h @ [ob])"

text \<open>\<^verbatim>\<open>d.update(other)\<close>: the pairs of \<open>other\<close> are stored into \<open>d\<close> in their order.\<close>

definition dict_update :: "(key \<times> pval) list \<Rightarrow> (key \<times> pval) list \<Rightarrow> (key \<times> pval) list" where
  "dict_update d other = fold (\<lambda>(k, v). AList.update k v) other d"

subsection \<open>Building and reading values in the store\<close>

text \<open>
  A parsed value becomes objects of the store children first; the parsers build trees,
  so no object is shared.
\<close>

fun alloc :: "jval \<Rightarrow> store \<Rightarrow> pval \<times> store"
  and alloc_list :: "jval list \<Rightarrow> store \<Rightarrow> pval list \<times> store"
  and alloc_items :: "(key \<times> jval) list \<Rightarrow> store \<Rightarrow> (key \<times> pval) list \<times> store"
where
  "alloc JNone h = (PNone, h)"
| "alloc (JBool b) h = (PBool b, h)"
| "alloc (JInt i) h = (PInt i, h)"
| "alloc (JStr x) h = (PStr x, h)"
| "alloc (JList xs) h = (case alloc_list xs h of (vs, h1) \<Rightarrow> new_obj (OList vs) h1)"
| "alloc (JDict kvs) h = (case alloc_items kvs h of (es, h1) \<Rightarrow> new_obj (ODict es) h1)"
| "alloc_list [] h = ([], h)"
| "alloc_list (x # xs) h =
     (case alloc x h of (v, h1) \<Rightarrow> (case alloc_list xs h1 of (vs, h2) \<Rightarrow> (v # vs, h2)))"
| "alloc_items [] h = ([], h)"
| "alloc_items (kv # kvs) h =
     (case alloc (snd kv) h of (v, h1) \<Rightarrow>
        (case alloc_items kvs h1 of (es, h2) \<Rightarrow> ((fst kv, v) # es, h2)))"

text \<open>
  The value that a reference denotes, read back from the store down to a given depth;
  \<open>None\<close> when the structure is deeper (a cyclic one is, at every depth) or a reference
  dangles.
\<close>

fun reify :: "nat \<Rightarrow> store \<Rightarrow> pval \<Rightarrow> jval option"
  and reify_list :: "nat \<Rightarrow> store \<Rightarrow> pval list \<Rightarrow> jval list option"
  and reify_items :: "nat \<Rightarrow> store \<Rightarrow> (key \<times> pval) list \<Rightarrow> (key \<times> jval) list option"
where
  "reify n h PNone = Some JNone"
| "reify n h (PBool b) = Some (JBool b)"
| "reify n h (PInt i) = Some (JInt i)"
| "reify n h (PStr x) = Some (JStr x)"
| "reify 0 h (PRef a) = None"
| "reify (Suc n) h (PRef a) =
     (if a < length h then
        (case h ! a of
           OList vs \<Rightarrow> map_option JList (reify_list n h vs)
         | ODict es \<Rightarrow> map_option JDict (reify_items n h es))
      else None)"
| "reify_list n h [] = Some []"
| "reify_list n h (v # vs) =
     (case reify n h v of None \<Rightarrow> None
      | Some t \<Rightarrow> map_option (Cons t) (reify_list n h vs))"
| "reify_items n h [] = Some []"
| "reify_items n h (kv # es) =
     (case reify n h (snd kv) of None \<Rightarrow> None
      | Some t \<Rightarrow> map_option (Cons (fst kv, t)) (reify_items n h es))"

definition value_of :: "store \<Rightarrow> pval \<Rightarrow> jval option" where
  "value_of h v = reify (length h) h v"

text \<open>The addresses that reading a value back visits, to the same depth.\<close>

fun reach :: "nat \<Rightarrow> store \<Rightarrow> pval \<Rightarrow> addr list"
  and reach_list :: "nat \<Rightarrow> store \<Rightarrow> pval list \<Rightarrow> addr list"
where
  "reach n h PNone = []"
| "reach n h (PBool b) = []"
| "reach n h (PInt i) = []"
| "reach n h (PStr x) = []"
| "reach 0 h (PRef a) = [a]"
| "reach (Suc n) h (PRef a) =
     a # (if a < length h then
            (case h ! a of
               OList vs \<Rightarrow> reach_list n h vs
             | ODict es \<Rightarrow> reach_list n h (map snd es))
          else [])"
| "reach_list n h [] = []"
| "reach_list n h (v # vs) = reach n h v @ reach_list n h vs"

subsection \<open>The operations of Python that the loader uses\<close>

fun is_substring :: "string \<Rightarrow> string \<Rightarrow> bool" where
  "is_substring xs [] = (xs = [])"
| "is_substring xs (y # ys) = (take (length xs) (y # ys) = xs \<or> is_substring xs ys)"

text \<open>\<^verbatim>\<open>name in v\<close> for a string \<open>name\<close>.\<close>

definition contains_str :: "string \<Rightarrow> pval \<Rightarrow> store \<Rightarrow> error + bool" where
  "contains_str name v h =
     (case v of
        PStr x \<Rightarrow> Inr (is_substring name x)
      | PRef a \<Rightarrow>
          (if a < length h then
             (case h ! a of
                ODict es \<Rightarrow> Inr (KStr name \<in> fst ` set es)
              | OList vs \<Rightarrow> Inr (PStr name \<in> set vs))
           else Inl TypeError)
      | _ \<Rightarrow> Inl TypeError)"

text \<open>\<^verbatim>\<open>v[name]\<close> and \<^verbatim>\<open>v[name] = x\<close> for a string \<open>name\<close>: only a dict takes a string.\<close>

definition getitem_str :: "pval \<Rightarrow> string \<Rightarrow> store \<Rightarrow> error + pval" where
  "getitem_str v name h =
     (case get_dict h v of
        None \<Rightarrow> Inl TypeError
      | Some es \<Rightarrow> (case map_of es (KStr name) of None \<Rightarrow> Inl KeyError | Some x \<Rightarrow> Inr x))"

definition setitem_str :: "pval \<Rightarrow> string \<Rightarrow> pval \<Rightarrow> store \<Rightarrow> error + store" where
  "setitem_str v name x h =
     (case v of
        PRef a \<Rightarrow>
          (case get_dict h v of
             None \<Rightarrow> Inl TypeError
           | Some es \<Rightarrow> Inr (h[a := ODict (AList.update (KStr name) x es)]))
      | _ \<Rightarrow> Inl TypeError)"

text \<open>\<^verbatim>\<open>v.popitem()\<close>: the pair stored last leaves the dict.\<close>

definition popitem :: "pval \<Rightarrow> store \<Rightarrow> error + ((key \<times> pval) \<times> store)" where
  "popitem v h =
     (case v of
        PRef a \<Rightarrow>
          (case get_dict h v of
             None \<Rightarrow> Inl AttributeError
           | Some es \<Rightarrow>
               (if es = [] then Inl KeyError
                else Inr (last es, h[a := ODict (butlast es)])))
      | _ \<Rightarrow> Inl AttributeError)"

text \<open>\<^verbatim>\<open>for item in v\<close>: the elements of a list, the keys of a dict, the characters of a string.\<close>

definition py_iter :: "store \<Rightarrow> pval \<Rightarrow> error + pval list" where
  "py_iter h v =
     (case v of
        PStr x \<Rightarrow> Inr (map (\<lambda>c. PStr [c]) x)
      | PRef a \<Rightarrow>
          (if a < length h then
             (case h ! a of
                ODict es \<Rightarrow> Inr (map (\<lambda>kv. of_key (fst kv)) es)
              | OList vs \<Rightarrow> Inr vs)
           else Inl TypeError)
      | _ \<Rightarrow> Inl TypeError)"

section \<open>The world outside the loader\<close>

text \<open>
  The file system, the \<^verbatim>\<open>os.path\<close> functions, the parsers and the two collaborators of
  the loader that are not part of it (\<^verbatim>\<open>importlib\<close>, \<^verbatim>\<open>parser.parse_data\<close>) are
  parameters. A text file is the list of lines that iterating over it yields; a JSON or
  YAML file is its parsed content (\<open>None\<close>: the parser rejects the file); the functions of
  a module are known by their names.
\<close>

type_synonym funcs = "string list"

record os =
  isfile :: "string \<Rightarrow> bool"
  isdir :: "string \<Rightarrow> bool"
  path_exists :: "string \<Rightarrow> bool"
  isabs :: "string \<Rightarrow> bool"
  path_join :: "string \<Rightarrow> string \<Rightarrow> string"
  dirname :: "string \<Rightarrow> string"
  abspath :: "string \<Rightarrow> string"
  file_suffix :: "string \<Rightarrow> string"
  getcwd :: "string"
  sep :: "string"
  walk :: "string \<Rightarrow> (string \<times> string list \<times> string list) list"
  file_lines :: "string \<Rightarrow> string list"
  json_load :: "string \<Rightarrow> jval option"
  yaml_load :: "string \<Rightarrow> jval option"
  csv_rows :: "string \<Rightarrow> jval list"
  import_debugtalk :: "string list \<Rightarrow> error + funcs"
  parse_data :: "jval \<Rightarrow> jval \<Rightarrow> funcs \<Rightarrow> error + jval"
  set_order :: "string list \<Rightarrow> string list"

datatype log_entry =
    Log_error string | Log_warning string | Log_info string
  | Warn_api_duplicated key | Warn_unexpected_block_key key

text \<open>
  The state of the process: the store, the two module globals \<^verbatim>\<open>tests_def_mapping\<close> and
  \<^verbatim>\<open>project_mapping\<close> (a dict with the keys PWD, functions and env, each absent until it
  is assigned), \<^verbatim>\<open>sys.path\<close>, \<^verbatim>\<open>os.environ\<close>, what the logger was given, and the files
  that \<^verbatim>\<open>load_file\<close> handed to a parser.
\<close>

record state =
  heap :: store
  tests_def_mapping :: "(key \<times> pval) list"
  pm_PWD :: "string option"
  pm_functions :: "funcs option"
  pm_env :: "(string \<times> string) list option"
  sys_path :: "string list"
  os_environ :: "(string \<times> string) list"
  logged :: "log_entry list"
  parsed :: "string list"

type_synonym 'a res = "(error + 'a) \<times> state"

definition log_msg :: "log_entry \<Rightarrow> state \<Rightarrow> state" where
  "log_msg m s = s\<lparr>logged := logged s @ [m]\<rparr>"

section \<open>The environment file\<close>

text \<open>
  \<^verbatim>\<open>str.strip()\<close> removes the white space of both ends; these are the white space
  characters below code point 256.
\<close>

definition is_space :: "char \<Rightarrow> bool" where
  "is_space c = ((of_char c :: nat) \<in> {9, 10, 11, 12, 13, 28, 29, 30, 31, 32, 133, 160})"

definition strip :: "string \<Rightarrow> string" where
  "strip xs = rev (dropWhile is_space (rev (dropWhile is_space xs)))"

text \<open>\<^verbatim>\<open>line.split(c, 1)\<close> for a line that contains \<open>c\<close>.\<close>

definition split_once :: "char \<Rightarrow> string \<Rightarrow> string \<times> string" where
  "split_once c line = (takeWhile (\<lambda>x. x \<noteq> c) line, tl (dropWhile (\<lambda>x. x \<noteq> c) line))"

fun env_lines :: "string list \<Rightarrow> (string \<times> string) list \<Rightarrow> error + (string \<times> string) list" where
  "env_lines [] env_variables_mapping = Inr env_variables_mapping"
| "env_lines (line # rest) env_variables_mapping =
     (if CHR ''='' \<in> set line then
        (case split_once CHR ''='' line of (variable, val) \<Rightarrow>
           env_lines rest (AList.update (strip variable) (strip val) env_variables_mapping))
      else if CHR '':'' \<in> set line then
        (case split_once CHR '':'' line of (variable, val) \<Rightarrow>
           env_lines rest (AList.update (strip variable) (strip val) env_variables_mapping))
      else Inl FileFormatError)"

text \<open>
  Modelled from the spec: \<^verbatim>\<open>utils.set_os_environ\<close>, which is not part of the loader;
  the parsed keys are exported into the process environment.
\<close>

definition set_os_environ :: "(string \<times> string) list \<Rightarrow> state \<Rightarrow> state" where
  "set_os_environ m s = s\<lparr>os_environ := fold (\<lambda>(k, v). AList.update k v) m (os_environ s)\<rparr>"

definition load_dot_env_file :: "os \<Rightarrow> string \<Rightarrow> state \<Rightarrow> (string \<times> string) list res" where
  "load_dot_env_file w dot_env_path s =
     (if \<not> isfile w dot_env_path then (Inr [], s)
      else
        (let s1 = log_msg (Log_info (''Loading environment variables from '' @ dot_env_path)) s
         in case env_lines (file_lines w dot_env_path) [] of
              Inl e \<Rightarrow> (Inl e, s1)
            | Inr env_variables_mapping \<Rightarrow>
                (Inr env_variables_mapping, set_os_environ env_variables_mapping s1)))"

section \<open>Locating the anchor file\<close>

text \<open>
  \<^verbatim>\<open>locate_file\<close> calls itself on the parent directory, and nothing in it bounds the
  number of calls: the fuel is the number of calls allowed, \<open>None\<close> is a search that has
  not returned within them.
\<close>

fun locate_file :: "nat \<Rightarrow> os \<Rightarrow> string \<Rightarrow> string \<Rightarrow> (error + string) option" where
  "locate_file 0 w start_path file_name = None"
| "locate_file (Suc n) w start_path file_name =
     (if isfile w start_path \<or> isdir w start_path then
        (let start_dir_path = (if isfile w start_path then dirname w start_path else start_path);
             file_path = path_join w start_dir_path file_name
         in if isfile w file_path then Some (Inr (abspath w file_path))
            else if abspath w start_dir_path \<in> set [getcwd w, abspath w (sep w)]
              then Some (Inl FileNotFound)
            else locate_file n w (dirname w start_dir_path) file_name)
      else Some (Inl FileNotFound))"

text \<open>The directories the search visits: the start directory and its parents.\<close>

fun ancestor :: "os \<Rightarrow> nat \<Rightarrow> string \<Rightarrow> string" where
  "ancestor w 0 d = d"
| "ancestor w (Suc k) d = ancestor w k (dirname w d)"

section \<open>The file loader\<close>

fun truthy :: "jval \<Rightarrow> bool" where
  "truthy JNone = False"
| "truthy (JBool b) = b"
| "truthy (JInt i) = (i \<noteq> 0)"
| "truthy (JStr x) = (x \<noteq> [])"
| "truthy (JList xs) = (xs \<noteq> [])"
| "truthy (JDict kvs) = (kvs \<noteq> [])"

fun is_list_or_dict :: "jval \<Rightarrow> bool" where
  "is_list_or_dict (JList xs) = True"
| "is_list_or_dict (JDict kvs) = True"
| "is_list_or_dict _ = False"

definition check_format :: "string \<Rightarrow> jval \<Rightarrow> state \<Rightarrow> unit res" where
  "check_format file_path content s =
     (if \<not> truthy content then
        (Inl FileFormatError,
         log_msg (Log_error (''Testcase file content is empty: '' @ file_path)) s)
      else if \<not> is_list_or_dict content then
        (Inl FileFormatError,
         log_msg (Log_error (''Testcase file content format invalid: '' @ file_path)) s)
      else (Inr (), s))"

definition opened :: "string \<Rightarrow> state \<Rightarrow> state" where
  "opened file_path s = s\<lparr>parsed := parsed s @ [file_path]\<rparr>"

definition store_value :: "jval \<Rightarrow> state \<Rightarrow> pval res" where
  "store_value content s = (case alloc content (heap s) of (v, h) \<Rightarrow> (Inr v, s\<lparr>heap := h\<rparr>))"

definition load_yaml_file :: "os \<Rightarrow> string \<Rightarrow> state \<Rightarrow> pval res" where
  "load_yaml_file w yaml_file s =
     (case yaml_load w yaml_file of
        None \<Rightarrow> (Inl YAMLError, opened yaml_file s)
      | Some yaml_content \<Rightarrow>
          (case check_format yaml_file yaml_content (opened yaml_file s) of
             (Inl e, s1) \<Rightarrow> (Inl e, s1)
           | (Inr u, s1) \<Rightarrow> store_value yaml_content s1))"

definition load_json_file :: "os \<Rightarrow> string \<Rightarrow> state \<Rightarrow> pval res" where
  "load_json_file w json_file s =
     (case json_load w json_file of
        None \<Rightarrow>
          (Inl FileFormatError,
           log_msg (Log_error (''JSONDecodeError: JSON file format error: '' @ json_file))
             (opened json_file s))
      | Some json_content \<Rightarrow>
          (case check_format json_file json_content (opened json_file s) of
             (Inl e, s1) \<Rightarrow> (Inl e, s1)
           | (Inr u, s1) \<Rightarrow> store_value json_content s1))"

definition load_csv_file :: "os \<Rightarrow> string \<Rightarrow> state \<Rightarrow> pval res" where
  "load_csv_file w csv_file s = store_value (JList (csv_rows w csv_file)) (opened csv_file s)"

text \<open>
  \<open>file_suffix\<close> is \<^verbatim>\<open>os.path.splitext(file_path)[1].lower()\<close>. A file of another suffix
  is no error: it loads as a new empty list.
\<close>

definition load_file :: "os \<Rightarrow> string \<Rightarrow> state \<Rightarrow> pval res" where
  "load_file w file_path s =
     (if \<not> isfile w file_path then (Inl FileNotFound, s)
      else
        (let file_suffix = file_suffix w file_path
         in if file_suffix = ''.json'' then load_json_file w file_path s
            else if file_suffix \<in> set [''.yaml'', ''.yml''] then load_yaml_file w file_path s
            else if file_suffix = ''.csv'' then load_csv_file w file_path s
            else store_value (JList [])
                   (log_msg (Log_warning (''Unsupported file format: '' @ file_path)) s)))"

definition endswith :: "string \<Rightarrow> string \<Rightarrow> bool" where
  "endswith x suf = (length suf \<le> length x \<and> drop (length x - length suf) x = suf)"

text \<open>
  \<^verbatim>\<open>load_folder_files\<close> takes one folder or a list or set of folders; a set is walked in
  whatever order Python iterates it, given here by \<open>set_order\<close>.
\<close>

datatype folders = Folder string | Folders "string list"

definition folder_files :: "os \<Rightarrow> string \<Rightarrow> bool \<Rightarrow> string list" where
  "folder_files w folder_path recursive =
     (if \<not> path_exists w folder_path then []
      else concat (map (\<lambda>(dirpath, dirnames, filenames).
               map (path_join w dirpath)
                 (filter (\<lambda>filename. endswith filename ''.yml'' \<or> endswith filename ''.yaml''
                            \<or> endswith filename ''.json'') filenames))
             (if recursive then walk w folder_path else take 1 (walk w folder_path))))"

definition load_folder_files :: "os \<Rightarrow> folders \<Rightarrow> bool \<Rightarrow> string list" where
  "load_folder_files w folder_path recursive =
     (case folder_path of
        Folders paths \<Rightarrow> concat (map (\<lambda>path. folder_files w path recursive) (set_order w paths))
      | Folder path \<Rightarrow> folder_files w path recursive)"

section \<open>The testcase loader\<close>

text \<open>
  Modelled from the spec: \<^verbatim>\<open>utils.deepcopy_dict\<close>, which is not part of the loader:
  the resolved definition is deep-copied. The copy is the value of the original built
  anew, so it shares no object with it; an original that denotes no finite value has no
  copy.
\<close>

definition deepcopy_dict :: "pval \<Rightarrow> state \<Rightarrow> pval res" where
  "deepcopy_dict block s =
     (case value_of (heap s) block of
        None \<Rightarrow> (Inl RecursionError, s)
      | Some content \<Rightarrow> store_value content s)"

text \<open>
  \<^verbatim>\<open>_get_api_definition\<close>: both lookups of \<^verbatim>\<open>tests_def_mapping["api"][name]\<close> are inside
  the \<^verbatim>\<open>try\<close>, so a missing key of either becomes \<^verbatim>\<open>ApiNotFound\<close>; a name that
  cannot be hashed is a \<^verbatim>\<open>TypeError\<close>.
\<close>

definition get_api_definition :: "pval \<Rightarrow> state \<Rightarrow> pval res" where
  "get_api_definition name s =
     (case map_of (tests_def_mapping s) (KStr ''api'') of
        None \<Rightarrow> (Inl ApiNotFound, s)
      | Some apis \<Rightarrow>
          (case get_dict (heap s) apis of
             None \<Rightarrow> (Inl TypeError, s)
           | Some defs \<Rightarrow>
               (case to_key name of
                  None \<Rightarrow> (Inl TypeError, s)
                | Some k \<Rightarrow>
                    (case map_of defs k of
                       None \<Rightarrow> (Inl ApiNotFound, s)
                     | Some block \<Rightarrow> deepcopy_dict block s))))"

text \<open>\<^verbatim>\<open>raw_stepinfo[name] = x\<close>, then \<^verbatim>\<open>return raw_stepinfo\<close>.\<close>

definition attach :: "pval \<Rightarrow> string \<Rightarrow> pval \<Rightarrow> state \<Rightarrow> pval res" where
  "attach raw_stepinfo name x s =
     (case setitem_str raw_stepinfo name x (heap s) of
        Inl e \<Rightarrow> (Inl e, s)
      | Inr h \<Rightarrow> (Inr raw_stepinfo, s\<lparr>heap := h\<rparr>))"

text \<open>\<^verbatim>\<open>testcase_path not in tests_def_mapping["testcases"]\<close>.\<close>

definition not_memoized :: "pval \<Rightarrow> state \<Rightarrow> error + bool" where
  "not_memoized testcase_path s =
     (case map_of (tests_def_mapping s) (KStr ''testcases'') of
        None \<Rightarrow> Inl KeyError
      | Some testcases \<Rightarrow>
          (case get_dict (heap s) testcases of
             None \<Rightarrow> Inl TypeError
           | Some known \<Rightarrow>
               (case to_key testcase_path of
                  None \<Rightarrow> Inl TypeError
                | Some k \<Rightarrow> Inr (k \<notin> fst ` set known))))"

text \<open>
  \<^verbatim>\<open>load_teststep\<close> and \<^verbatim>\<open>load_testcase\<close> call each other through the testcase
  references of the files, and nothing bounds the nesting: the fuel is the depth of
  nesting allowed, \<open>None\<close> a load that has not returned within it. The dict and the list
  that \<^verbatim>\<open>load_testcase\<close> fills are its own until it returns; they enter the store then.
\<close>

fun load_teststep :: "nat \<Rightarrow> os \<Rightarrow> pval \<Rightarrow> state \<Rightarrow> pval res option"
  and load_testcase :: "nat \<Rightarrow> os \<Rightarrow> pval \<Rightarrow> state \<Rightarrow> pval res option"
  and load_blocks :: "nat \<Rightarrow> os \<Rightarrow> pval list \<Rightarrow> (key \<times> pval) list \<Rightarrow> pval list \<Rightarrow> state
        \<Rightarrow> ((key \<times> pval) list \<times> pval list) res option"
where
  "load_teststep n w raw_stepinfo s =
     (case contains_str ''api'' raw_stepinfo (heap s) of
        Inl e \<Rightarrow> Some (Inl e, s)
      | Inr has_api \<Rightarrow>
     if has_api then
       (case getitem_str raw_stepinfo ''api'' (heap s) of
          Inl e \<Rightarrow> Some (Inl e, s)
        | Inr api_name \<Rightarrow>
            (case get_api_definition api_name s of
               (Inl e, s1) \<Rightarrow> Some (Inl e, s1)
             | (Inr api_def, s1) \<Rightarrow> Some (attach raw_stepinfo ''api_def'' api_def s1)))
     else
     (case contains_str ''func'' raw_stepinfo (heap s) of
        Inl e \<Rightarrow> Some (Inl e, s)
      | Inr has_func \<Rightarrow>
     if has_func then Some (Inr raw_stepinfo, s)
     else
     (case contains_str ''testcase'' raw_stepinfo (heap s) of
        Inl e \<Rightarrow> Some (Inl e, s)
      | Inr has_testcase \<Rightarrow>
     if has_testcase then
       (case getitem_str raw_stepinfo ''testcase'' (heap s) of
          Inl e \<Rightarrow> Some (Inl e, s)
        | Inr testcase_path \<Rightarrow>
            (case not_memoized testcase_path s of
               Inl e \<Rightarrow> Some (Inl e, s)
             | Inr fresh \<Rightarrow>
            if fresh then
              (case pm_PWD s of
                 None \<Rightarrow> Some (Inl KeyError, s)
               | Some pwd \<Rightarrow>
                   (case testcase_path of
                      PStr rel \<Rightarrow>
                        (case load_file w (path_join w pwd rel) s of
                           (Inl e, s1) \<Rightarrow> Some (Inl e, s1)
                         | (Inr raw_testcase, s1) \<Rightarrow>
                             (case n of
                                0 \<Rightarrow> None
                              | Suc m \<Rightarrow>
                                  (case load_testcase m w raw_testcase s1 of
                                     None \<Rightarrow> None
                                   | Some (Inl e, s2) \<Rightarrow> Some (Inl e, s2)
                                   | Some (Inr testcase_dict, s2) \<Rightarrow>
                                       Some (attach raw_stepinfo ''testcase_def'' testcase_dict
                                         (s2\<lparr>tests_def_mapping :=
                                               AList.update (KStr (path_join w pwd rel)) testcase_dict
                                                 (tests_def_mapping s2)\<rparr>)))))
                    | _ \<Rightarrow> Some (Inl TypeError, s)))
            else
              (case to_key testcase_path of
                 None \<Rightarrow> Some (Inl TypeError, s)
               | Some k \<Rightarrow>
                   (case map_of (tests_def_mapping s) k of
                      None \<Rightarrow> Some (Inl KeyError, s)
                    | Some testcase_dict \<Rightarrow>
                        Some (attach raw_stepinfo ''testcase_def'' testcase_dict s)))))
     else Some (Inr raw_stepinfo, s))))"
| "load_testcase n w raw_testcase s =
     (case py_iter (heap s) raw_testcase of
        Inl e \<Rightarrow> Some (Inl e, s)
      | Inr items \<Rightarrow>
          (case load_blocks n w items [] [] s of
             None \<Rightarrow> None
           | Some (Inl e, s1) \<Rightarrow> Some (Inl e, s1)
           | Some (Inr (config, teststeps), s1) \<Rightarrow>
               (case new_obj (ODict config) (heap s1) of (c, h1) \<Rightarrow>
               (case new_obj (OList teststeps) h1 of (t, h2) \<Rightarrow>
               (case new_obj (ODict [(KStr ''config'', c), (KStr ''teststeps'', t)]) h2 of (r, h3) \<Rightarrow>
                  Some (Inr r, s1\<lparr>heap := h3\<rparr>))))))"
| "load_blocks n w [] config teststeps s = Some (Inr (config, teststeps), s)"
| "load_blocks n w (item # items) config teststeps s =
     (case get_dict (heap s) item of
        None \<Rightarrow> Some (Inl FileFormatError, s)
      | Some pairs \<Rightarrow>
     if length pairs \<noteq> 1 then Some (Inl FileFormatError, s)
     else
     (case popitem item (heap s) of
        Inl e \<Rightarrow> Some (Inl e, s)
      | Inr ((k, test_block), h1) \<Rightarrow>
     (case get_dict h1 test_block of
        None \<Rightarrow> Some (Inl FileFormatError, s\<lparr>heap := h1\<rparr>)
      | Some block \<Rightarrow>
     if k = KStr ''config'' then
       load_blocks n w items (dict_update config block) teststeps (s\<lparr>heap := h1\<rparr>)
     else if k = KStr ''test'' then
       (case load_teststep n w test_block (s\<lparr>heap := h1\<rparr>) of
          None \<Rightarrow> None
        | Some (Inl e, s1) \<Rightarrow> Some (Inl e, s1)
        | Some (Inr teststep, s1) \<Rightarrow> load_blocks n w items config (teststeps @ [teststep]) s1)
     else
       load_blocks n w items config teststeps
         (log_msg (Warn_unexpected_block_key k) (s\<lparr>heap := h1\<rparr>)))))"

section \<open>The api folder\<close>

fun load_folder_content_files :: "os \<Rightarrow> string list \<Rightarrow> (string \<times> pval) list \<Rightarrow> state
    \<Rightarrow> (string \<times> pval) list res" where
  "load_folder_content_files w [] items_mapping s = (Inr items_mapping, s)"
| "load_folder_content_files w (file_path # rest) items_mapping s =
     (case load_file w file_path s of
        (Inl e, s1) \<Rightarrow> (Inl e, s1)
      | (Inr content, s1) \<Rightarrow>
          load_folder_content_files w rest (AList.update file_path content items_mapping) s1)"

definition load_folder_content :: "os \<Rightarrow> string \<Rightarrow> state \<Rightarrow> (string \<times> pval) list res" where
  "load_folder_content w folder_path s =
     load_folder_content_files w (load_folder_files w (Folder folder_path) True) [] s"

text \<open>
  The inner loop of \<^verbatim>\<open>load_api_folder\<close>, over the blocks of one file. Nothing checks a
  block before \<^verbatim>\<open>popitem\<close> and \<^verbatim>\<open>get\<close> are called on it.
\<close>

fun load_api_items :: "pval list \<Rightarrow> (key \<times> pval) list \<Rightarrow> state \<Rightarrow> (key \<times> pval) list res" where
  "load_api_items [] api_definition_mapping s = (Inr api_definition_mapping, s)"
| "load_api_items (api_item # rest) api_definition_mapping s =
     (case popitem api_item (heap s) of
        Inl e \<Rightarrow> (Inl e, s)
      | Inr ((k, api_dict), h1) \<Rightarrow>
     (case get_dict h1 api_dict of
        None \<Rightarrow> (Inl AttributeError, s\<lparr>heap := h1\<rparr>)
      | Some api_fields \<Rightarrow>
     (case to_key (case map_of api_fields (KStr ''id'') of None \<Rightarrow> PNone | Some x \<Rightarrow> x) of
        None \<Rightarrow> (Inl TypeError, s\<lparr>heap := h1\<rparr>)
      | Some api_id \<Rightarrow>
          load_api_items rest (AList.update api_id api_dict api_definition_mapping)
            (if api_id \<in> fst ` set api_definition_mapping
             then log_msg (Warn_api_duplicated api_id) (s\<lparr>heap := h1\<rparr>)
             else s\<lparr>heap := h1\<rparr>))))"

fun load_api_files :: "(string \<times> pval) list \<Rightarrow> (key \<times> pval) list \<Rightarrow> state \<Rightarrow> (key \<times> pval) list res" where
  "load_api_files [] api_definition_mapping s = (Inr api_definition_mapping, s)"
| "load_api_files (entry # rest) api_definition_mapping s =
     (case py_iter (heap s) (snd entry) of
        Inl e \<Rightarrow> (Inl e, s)
      | Inr api_items \<Rightarrow>
          (case load_api_items api_items api_definition_mapping s of
             (Inl e, s1) \<Rightarrow> (Inl e, s1)
           | (Inr m, s1) \<Rightarrow> load_api_files rest m s1))"

definition load_api_folder :: "os \<Rightarrow> string \<Rightarrow> state \<Rightarrow> pval res" where
  "load_api_folder w api_folder_path s =
     (case load_folder_content w api_folder_path s of
        (Inl e, s1) \<Rightarrow> (Inl e, s1)
      | (Inr api_items_mapping, s1) \<Rightarrow>
          (case load_api_files api_items_mapping [] s1 of
             (Inl e, s2) \<Rightarrow> (Inl e, s2)
           | (Inr api_definition_mapping, s2) \<Rightarrow>
               (case new_obj (ODict api_definition_mapping) (heap s2) of
                  (r, h) \<Rightarrow> (Inr r, s2\<lparr>heap := h\<rparr>))))"

section \<open>The project\<close>

definition use_cwd :: "os \<Rightarrow> state \<Rightarrow> (string \<times> funcs) res" where
  "use_cwd w s = (Inr (getcwd w, []), s\<lparr>sys_path := getcwd w # sys_path s\<rparr>)"

text \<open>
  The import of \<^verbatim>\<open>debugtalk\<close> is inside the \<^verbatim>\<open>try\<close> as well, so a \<^verbatim>\<open>FileNotFound\<close>
  raised there takes the fallback too; any other error of the import is not caught.
\<close>

definition load_debugtalk_py :: "nat \<Rightarrow> os \<Rightarrow> string \<Rightarrow> state \<Rightarrow> (string \<times> funcs) res option" where
  "load_debugtalk_py n w start_path s =
     (case locate_file n w start_path ''debugtalk.py'' of
        None \<Rightarrow> None
      | Some (Inl e) \<Rightarrow> Some (if e = FileNotFound then use_cwd w s else (Inl e, s))
      | Some (Inr debugtalk_path) \<Rightarrow>
          (let project_working_directory = dirname w debugtalk_path;
               s1 = s\<lparr>sys_path := project_working_directory # sys_path s\<rparr>
           in case import_debugtalk w (sys_path s1) of
                Inl e \<Rightarrow> Some (if e = FileNotFound then use_cwd w s1 else (Inl e, s1))
              | Inr debugtalk_functions \<Rightarrow>
                  Some (Inr (project_working_directory, debugtalk_functions), s1)))"

definition load_project_tests :: "nat \<Rightarrow> os \<Rightarrow> string \<Rightarrow> string option \<Rightarrow> state \<Rightarrow> unit res option" where
  "load_project_tests n w test_path dot_env_path s =
     (case load_debugtalk_py n w test_path s of
        None \<Rightarrow> None
      | Some (Inl e, s1) \<Rightarrow> Some (Inl e, s1)
      | Some (Inr (project_working_directory, debugtalk_functions), s1) \<Rightarrow>
          (let s2 = s1\<lparr>pm_PWD := Some project_working_directory,
                        pm_functions := Some debugtalk_functions\<rparr>;
               env_path = (case dot_env_path of
                             None \<Rightarrow> path_join w project_working_directory ''.env''
                           | Some p \<Rightarrow> if p = [] then path_join w project_working_directory ''.env''
                                       else p)
           in case load_dot_env_file w env_path s2 of
                (Inl e, s3) \<Rightarrow> Some (Inl e, s3)
              | (Inr env, s3) \<Rightarrow>
                  (case load_api_folder w (path_join w project_working_directory ''api'')
                          (s3\<lparr>pm_env := Some env\<rparr>) of
                     (Inl e, s4) \<Rightarrow> Some (Inl e, s4)
                   | (Inr apis, s4) \<Rightarrow>
                       Some (Inr (),
                         s4\<lparr>tests_def_mapping :=
                              AList.update (KStr ''api'') apis (tests_def_mapping s4)\<rparr>))))"

section \<open>Loading tests\<close>

text \<open>\<^verbatim>\<open>testcase["config"]["path"] = path\<close>.\<close>

definition set_config_path :: "pval \<Rightarrow> string \<Rightarrow> state \<Rightarrow> unit res" where
  "set_config_path testcase path s =
     (case getitem_str testcase ''config'' (heap s) of
        Inl e \<Rightarrow> (Inl e, s)
      | Inr config \<Rightarrow>
          (case setitem_str config ''path'' (PStr path) (heap s) of
             Inl e \<Rightarrow> (Inl e, s)
           | Inr h \<Rightarrow> (Inr (), s\<lparr>heap := h\<rparr>)))"

text \<open>
  The local function \<^verbatim>\<open>load_test_file\<close> of \<^verbatim>\<open>load_tests\<close>. The file is read before the
  \<^verbatim>\<open>try\<close>; the \<^verbatim>\<open>try\<close> holds the assembly and the path annotation, and its handler
  takes \<^verbatim>\<open>FileFormatError\<close> only. The empty dict of the handler, which the callers
  drop, is \<open>None\<close> here.
\<close>

definition load_test_file :: "nat \<Rightarrow> os \<Rightarrow> string \<Rightarrow> state \<Rightarrow> pval option res option" where
  "load_test_file n w path s =
     (case load_file w path s of
        (Inl e, s1) \<Rightarrow> Some (Inl e, s1)
      | (Inr raw_testcase, s1) \<Rightarrow>
          (case load_testcase n w raw_testcase s1 of
             None \<Rightarrow> None
           | Some (Inl e, s2) \<Rightarrow>
               Some (if e = FileFormatError then (Inr None, s2) else (Inl e, s2))
           | Some (Inr testcase, s2) \<Rightarrow>
               (case set_config_path testcase path s2 of
                  (Inl e, s3) \<Rightarrow> Some (if e = FileFormatError then (Inr None, s3) else (Inl e, s3))
                | (Inr u, s3) \<Rightarrow> Some (Inr (Some testcase), s3))))"

fun load_test_files :: "nat \<Rightarrow> os \<Rightarrow> string list \<Rightarrow> pval list \<Rightarrow> state \<Rightarrow> pval list res option" where
  "load_test_files n w [] testcases_list s = Some (Inr testcases_list, s)"
| "load_test_files n w (path # files_list) testcases_list s =
     (case load_test_file n w path s of
        None \<Rightarrow> None
      | Some (Inl e, s1) \<Rightarrow> Some (Inl e, s1)
      | Some (Inr None, s1) \<Rightarrow> load_test_files n w files_list testcases_list s1
      | Some (Inr (Some testcase), s1) \<Rightarrow>
          load_test_files n w files_list (testcases_list @ [testcase]) s1)"

text \<open>
  \<^verbatim>\<open>load_tests\<close> returns a dict of the global \<^verbatim>\<open>project_mapping\<close>, which is part of the
  state here, and the list of testcases, which is the result here. The fuel bounds the
  search for \<^verbatim>\<open>debugtalk.py\<close> and the nesting of testcases alike.
\<close>

definition load_tests :: "nat \<Rightarrow> os \<Rightarrow> string \<Rightarrow> string option \<Rightarrow> state \<Rightarrow> pval list res option" where
  "load_tests n w path dot_env_path s =
     (if \<not> path_exists w path then
        Some (Inl FileNotFound, log_msg (Log_error (''path not exist: '' @ path)) s)
      else
        (let path = (if \<not> isabs w path then path_join w (getcwd w) path else path)
         in case load_project_tests n w path dot_env_path s of
              None \<Rightarrow> None
            | Some (Inl e, s1) \<Rightarrow> Some (Inl e, s1)
            | Some (Inr u, s1) \<Rightarrow>
                if isdir w path then
                  load_test_files n w (load_folder_files w (Folder path) True) [] s1
                else if isfile w path then
                  (case load_test_file n w path s1 of
                     None \<Rightarrow> None
                   | Some (Inl e, s2) \<Rightarrow> Some (Inl e, s2)
                   | Some (Inr None, s2) \<Rightarrow> Some (Inr [], s2)
                   | Some (Inr (Some testcase), s2) \<Rightarrow> Some (Inr [testcase], s2))
                else Some (Inr [], s1)))"

section \<open>Loading weighted tests\<close>

text \<open>
  \<^verbatim>\<open>config.update(test_block)\<close> where nothing has checked \<open>test_block\<close>: a dict gives its
  pairs; anything else must be iterable and yield sequences of two elements.
\<close>

definition pair_of :: "store \<Rightarrow> pval \<Rightarrow> error + (key \<times> pval)" where
  "pair_of h x =
     (case py_iter h x of
        Inl e \<Rightarrow> Inl TypeError
      | Inr elems \<Rightarrow>
          (case elems of
             [a, b] \<Rightarrow> (case to_key a of None \<Rightarrow> Inl TypeError | Some k \<Rightarrow> Inr (k, b))
           | _ \<Rightarrow> Inl ValueError))"

fun update_pairs :: "store \<Rightarrow> pval list \<Rightarrow> (key \<times> pval) list \<Rightarrow> error + (key \<times> pval) list" where
  "update_pairs h [] config = Inr config"
| "update_pairs h (x # xs) config =
     (case pair_of h x of
        Inl e \<Rightarrow> Inl e
      | Inr (k, v) \<Rightarrow> update_pairs h xs (AList.update k v config))"

definition config_update :: "store \<Rightarrow> (key \<times> pval) list \<Rightarrow> pval \<Rightarrow> error + (key \<times> pval) list" where
  "config_update h config test_block =
     (case get_dict h test_block of
        Some block \<Rightarrow> Inr (dict_update config block)
      | None \<Rightarrow>
          (case py_iter h test_block of
             Inl e \<Rightarrow> Inl TypeError
           | Inr elems \<Rightarrow> update_pairs h elems config))"

text \<open>\<^verbatim>\<open>range(weight)\<close>: how many times the loop body runs.\<close>

fun range_count :: "pval \<Rightarrow> nat option" where
  "range_count (PInt i) = Some (nat i)"
| "range_count (PBool b) = Some (if b then 1 else 0)"
| "range_count _ = None"

definition dict_get :: "(key \<times> pval) list \<Rightarrow> string \<Rightarrow> pval \<Rightarrow> pval" where
  "dict_get d name dflt = (case map_of d (KStr name) of None \<Rightarrow> dflt | Some x \<Rightarrow> x)"

fun load_locust_blocks :: "nat \<Rightarrow> os \<Rightarrow> pval list \<Rightarrow> (key \<times> pval) list \<Rightarrow> pval list \<Rightarrow> state
    \<Rightarrow> ((key \<times> pval) list \<times> pval list) res option" where
  "load_locust_blocks n w [] config tests s = Some (Inr (config, tests), s)"
| "load_locust_blocks n w (item # items) config tests s =
     (case popitem item (heap s) of
        Inl e \<Rightarrow> Some (Inl e, s)
      | Inr ((k, test_block), h1) \<Rightarrow>
     if k = KStr ''config'' then
       (case config_update h1 config test_block of
          Inl e \<Rightarrow> Some (Inl e, s\<lparr>heap := h1\<rparr>)
        | Inr config1 \<Rightarrow> load_locust_blocks n w items config1 tests (s\<lparr>heap := h1\<rparr>))
     else if k = KStr ''test'' then
       (case load_teststep n w test_block (s\<lparr>heap := h1\<rparr>) of
          None \<Rightarrow> None
        | Some (Inl e, s1) \<Rightarrow> Some (Inl e, s1)
        | Some (Inr teststep, s1) \<Rightarrow>
            (case get_dict (heap s1) test_block of
               None \<Rightarrow> Some (Inl AttributeError, s1)
             | Some block \<Rightarrow>
                 (case range_count (dict_get block ''weight'' (PInt 1)) of
                    None \<Rightarrow> Some (Inl TypeError, s1)
                  | Some weight \<Rightarrow>
                      load_locust_blocks n w items config (tests @ replicate weight teststep) s1)))
     else load_locust_blocks n w items config tests (s\<lparr>heap := h1\<rparr>))"

text \<open>
  Modelled from the spec: \<^verbatim>\<open>parser.parse_data\<close>, which is not part of the loader: an
  opaque capability that takes data, variables and functions and returns data. It is
  given the values of its arguments and its result is built anew in the store.
\<close>

definition config_value :: "store \<Rightarrow> (key \<times> pval) list \<Rightarrow> string \<Rightarrow> jval \<Rightarrow> jval option" where
  "config_value h config name dflt =
     (case map_of config (KStr name) of None \<Rightarrow> Some dflt | Some x \<Rightarrow> value_of h x)"

definition parse_config_entry :: "os \<Rightarrow> (key \<times> pval) list \<Rightarrow> string \<Rightarrow> jval \<Rightarrow> jval \<Rightarrow> state \<Rightarrow> pval res" where
  "parse_config_entry w config name dflt config_variables s =
     (case config_value (heap s) config name dflt of
        None \<Rightarrow> (Inl RecursionError, s)
      | Some raw \<Rightarrow>
          (case pm_functions s of
             None \<Rightarrow> (Inl KeyError, s)
           | Some functions \<Rightarrow>
               (case parse_data w raw config_variables functions of
                  Inl e \<Rightarrow> (Inl e, s)
                | Inr parsed_value \<Rightarrow> store_value parsed_value s)))"

definition parse_locust_config :: "os \<Rightarrow> (key \<times> pval) list \<Rightarrow> state \<Rightarrow> (key \<times> pval) list res" where
  "parse_locust_config w config s =
     (case config_value (heap s) config ''variables'' (JList []) of
        None \<Rightarrow> (Inl RecursionError, s)
      | Some raw_config_variables \<Rightarrow>
     (case pm_functions s of
        None \<Rightarrow> (Inl KeyError, s)
      | Some functions \<Rightarrow>
     (case parse_data w raw_config_variables (JDict []) functions of
        Inl e \<Rightarrow> (Inl e, s)
      | Inr config_variables \<Rightarrow>
     (case parse_config_entry w config ''name'' (JStr []) config_variables s of
        (Inl e, s1) \<Rightarrow> (Inl e, s1)
      | (Inr name, s1) \<Rightarrow>
     (case parse_config_entry w (AList.update (KStr ''name'') name config) ''request'' (JDict [])
             config_variables s1 of
        (Inl e, s2) \<Rightarrow> (Inl e, s2)
      | (Inr request, s2) \<Rightarrow>
          (Inr (AList.update (KStr ''request'') request
                  (AList.update (KStr ''name'') name config)), s2))))))"

definition load_locust_tests :: "nat \<Rightarrow> os \<Rightarrow> string \<Rightarrow> string option \<Rightarrow> state \<Rightarrow> pval res option" where
  "load_locust_tests n w path dot_env_path s =
     (case load_file w path s of
        (Inl e, s1) \<Rightarrow> Some (Inl e, s1)
      | (Inr raw_testcase, s1) \<Rightarrow>
     (case load_project_tests n w path dot_env_path s1 of
        None \<Rightarrow> None
      | Some (Inl e, s2) \<Rightarrow> Some (Inl e, s2)
      | Some (Inr u, s2) \<Rightarrow>
     (case py_iter (heap s2) raw_testcase of
        Inl e \<Rightarrow> Some (Inl e, s2)
      | Inr items \<Rightarrow>
     (case load_locust_blocks n w items [] [] s2 of
        None \<Rightarrow> None
      | Some (Inl e, s3) \<Rightarrow> Some (Inl e, s3)
      | Some (Inr (config, tests), s3) \<Rightarrow>
     (case parse_locust_config w config s3 of
        (Inl e, s4) \<Rightarrow> Some (Inl e, s4)
      | (Inr config1, s4) \<Rightarrow>
          (case new_obj (ODict config1) (heap s4) of (c, h1) \<Rightarrow>
          (case new_obj (OList tests) h1 of (t, h2) \<Rightarrow>
          (case new_obj (ODict [(KStr ''config'', c), (KStr ''tests'', t)]) h2 of (r, h3) \<Rightarrow>
             Some (Inr r, s4\<lparr>heap := h3\<rparr>)))))))))"

section \<open>A small world\<close>

text \<open>
  The state of a process that has just imported the loader, and a file system with
  nothing in it; the examples below put files into it.
\<close>

definition init_state :: state where
  "init_state =
     \<lparr>heap = [ODict [], ODict []],
      tests_def_mapping = [(KStr ''api'', PRef 0), (KStr ''testcases'', PRef 1)],
      pm_PWD = None, pm_functions = None, pm_env = None,
      sys_path = [], os_environ = [], logged = [], parsed = []\<rparr>"

definition empty_world :: os where
  "empty_world =
     \<lparr>isfile = (\<lambda>p. False), isdir = (\<lambda>p. False), path_exists = (\<lambda>p. False),
      isabs = (\<lambda>p. take 1 p = ''/''), path_join = (\<lambda>a b. a @ ''/'' @ b),
      dirname = (\<lambda>p. rev (tl (dropWhile (\<lambda>c. c \<noteq> CHR ''/'') (rev p)))),
      abspath = (\<lambda>p. p), file_suffix = (\<lambda>p. []), getcwd = ''/work'', sep = [],
      walk = (\<lambda>p. []), file_lines = (\<lambda>p. []), json_load = (\<lambda>p. None),
      yaml_load = (\<lambda>p. None), csv_rows = (\<lambda>p. []),
      import_debugtalk = (\<lambda>p. Inl ImportError), parse_data = (\<lambda>d v f. Inr d),
      set_order = (\<lambda>ps. remdups ps)\<rparr>"

declare load_teststep.simps [simp del] load_testcase.simps [simp del]

section \<open>Examples and auxiliary notions\<close>

text \<open>
  \<^verbatim>\<open>os.path.join\<close> of two arguments and \<^verbatim>\<open>os.path.dirname\<close> on POSIX, for the
  example worlds; \<open>project_world\<close> has the directories of a project under \<^verbatim>\<open>/work\<close>.
\<close>

definition posix_join :: "string \<Rightarrow> string \<Rightarrow> string" where
  "posix_join a b =
     (if take 1 b = ''/'' then b
      else if a = [] \<or> last a = CHR ''/'' then a @ b
      else a @ ''/'' @ b)"

definition posix_dirname :: "string \<Rightarrow> string" where
  "posix_dirname p =
     (if CHR ''/'' \<notin> set p then []
      else (let d = rev (tl (dropWhile (\<lambda>c. c \<noteq> CHR ''/'') (rev p)))
            in if d = [] then ''/'' else d))"

definition project_world :: os where
  "project_world =
     empty_world\<lparr>isdir := (\<lambda>p. p \<in> set [''/'', ''/work'', ''/work/tests'', ''/work/tests/sub'']),
       path_join := posix_join, dirname := posix_dirname, sep := ''/''\<rparr>"

definition env_world :: "string list \<Rightarrow> os" where
  "env_world ls = empty_world\<lparr>isfile := (\<lambda>p. p = ''/work/.env''), file_lines := (\<lambda>p. ls)\<rparr>"

text \<open>
  A line cut at its separator: the text before it, the separator, the text after it. The
  separator is the first \<^verbatim>\<open>=\<close> of the line, or the first \<^verbatim>\<open>:\<close> of a line without \<^verbatim>\<open>=\<close>.
\<close>

definition first_separator :: "string \<times> char \<times> string \<Rightarrow> bool" where
  "first_separator part =
     (case part of (a, c, b) \<Rightarrow>
        c = CHR ''='' \<and> CHR ''='' \<notin> set a
        \<or> c = CHR '':'' \<and> CHR '':'' \<notin> set a \<and> CHR ''='' \<notin> set a \<and> CHR ''='' \<notin> set b)"

definition line_of :: "string \<times> char \<times> string \<Rightarrow> string" where
  "line_of part = (case part of (a, c, b) \<Rightarrow> a @ c # b)"

definition bind_part :: "string \<times> char \<times> string \<Rightarrow> (string \<times> string) list \<Rightarrow> (string \<times> string) list" where
  "bind_part part m = (case part of (a, c, b) \<Rightarrow> AList.update (strip a) (strip b) m)"

definition nested_world :: os where
  "nested_world =
     empty_world\<lparr>isfile := (\<lambda>p. p = ''/work/tc.json''),
       file_suffix := (\<lambda>p. if p = ''/work/tc.json'' then ''.json'' else []),
       json_load := (\<lambda>p. if p = ''/work/tc.json''
          then Some (JList [JDict [(KStr ''config'', JDict [(KStr ''name'', JStr ''nested'')])]])
          else None)\<rparr>"

definition two_steps :: state where
  "two_steps =
     init_state\<lparr>heap := heap init_state @
         [ODict [(KStr ''testcase'', PStr ''tc.json'')], ODict [(KStr ''testcase'', PStr ''tc.json'')]],
       pm_PWD := Some ''/work''\<rparr>"

definition last_pair :: "store \<Rightarrow> pval \<Rightarrow> (key \<times> pval) option" where
  "last_pair h item =
     (case get_dict h item of
        None \<Rightarrow> None
      | Some pairs \<Rightarrow> if pairs = [] then None else Some (last pairs))"

definition lacks_id :: "store \<Rightarrow> pval \<Rightarrow> bool" where
  "lacks_id h item =
     (case last_pair h item of
        None \<Rightarrow> False
      | Some kv \<Rightarrow>
          (case get_dict h (snd kv) of
             None \<Rightarrow> False
           | Some api_fields \<Rightarrow> KStr ''id'' \<notin> fst ` set api_fields))"

definition tests_world :: "jval \<Rightarrow> os" where
  "tests_world a_content =
     project_world\<lparr>path_exists := (\<lambda>p. p = ''/work/tests''),
       isfile := (\<lambda>p. p \<in> set [''/work/tests/a.yml'', ''/work/tests/b.json'']),
       walk := (\<lambda>p. if p = ''/work/tests'' then [(''/work/tests'', [], [''a.yml'', ''b.json''])] else []),
       file_suffix := (\<lambda>p. if p = ''/work/tests/a.yml'' then ''.yml''
                             else if p = ''/work/tests/b.json'' then ''.json'' else []),
       yaml_load := (\<lambda>p. Some a_content),
       json_load := (\<lambda>p. Some (JList [JDict [(KStr ''config'', JDict [(KStr ''name'', JStr ''b'')])]]))\<rparr>"

definition val_ge :: "nat \<Rightarrow> pval \<Rightarrow> bool" where
  "val_ge L v = (case v of PRef b \<Rightarrow> L \<le> b | _ \<Rightarrow> True)"

definition refs_ge :: "nat \<Rightarrow> obj \<Rightarrow> bool" where
  "refs_ge L ob =
     (case ob of
        ODict es \<Rightarrow> (\<forall>kv \<in> set es. val_ge L (snd kv))
      | OList vs \<Rightarrow> (\<forall>v \<in> set vs. val_ge L v))"

definition entries_ge :: "nat \<Rightarrow> (key \<times> pval) list \<Rightarrow> bool" where
  "entries_ge L es = (\<forall>kv \<in> set es. fst kv \<noteq> KStr ''testcase_def'' \<longrightarrow> val_ge L (snd kv))"

definition closed_from :: "nat \<Rightarrow> store \<Rightarrow> bool" where
  "closed_from L h =
     (\<forall>a es. L \<le> a \<longrightarrow> a < length h \<longrightarrow> h ! a = ODict es \<longrightarrow> entries_ge L es)"

definition frame_upto :: "nat \<Rightarrow> pval \<Rightarrow> store \<Rightarrow> store \<Rightarrow> bool" where
  "frame_upto K step h h' =
     (length h \<le> length h'
      \<and> (\<forall>a < length h. step \<noteq> PRef a \<longrightarrow> h' ! a = h ! a)
      \<and> (\<forall>L \<le> K. closed_from L h \<longrightarrow> closed_from L h'))"

definition entry_of :: "store \<Rightarrow> pval \<Rightarrow> (key \<times> pval) option" where
  "entry_of h item =
     (case get_dict h item of
        None \<Rightarrow> None
      | Some pairs \<Rightarrow> (case pairs of [kv] \<Rightarrow> Some kv | _ \<Rightarrow> None))"

definition is_ref :: "pval \<Rightarrow> bool" where
  "is_ref v = (case v of PRef a \<Rightarrow> True | _ \<Rightarrow> False)"

definition valid :: "store \<Rightarrow> pval \<Rightarrow> bool" where
  "valid h v = (case v of PRef a \<Rightarrow> a < length h | _ \<Rightarrow> True)"

definition block_of :: "store \<Rightarrow> pval \<Rightarrow> pval" where
  "block_of h item = (case entry_of h item of None \<Rightarrow> PNone | Some kv \<Rightarrow> snd kv)"

text \<open>
  A raw testcase as the parsers build it: every block is a dict of one pair, the blocks
  are different objects, and so are the values they hold.
\<close>

definition unshared :: "store \<Rightarrow> pval list \<Rightarrow> bool" where
  "unshared h items =
     (list_all (\<lambda>item. entry_of h item \<noteq> None) items
      \<and> list_all (valid h) (map (block_of h) items)
      \<and> distinct (items @ filter is_ref (map (block_of h) items)))"

definition config_blocks :: "store \<Rightarrow> pval list \<Rightarrow> (key \<times> pval) list list" where
  "config_blocks h items =
     concat (map (\<lambda>item.
       case entry_of h item of
         None \<Rightarrow> []
       | Some kv \<Rightarrow>
           if fst kv = KStr ''config''
           then (case get_dict h (snd kv) of None \<Rightarrow> [] | Some block \<Rightarrow> [block])
           else []) items)"

text \<open>The value of a key in the last of a list of dicts that has the key.\<close>

fun last_binding :: "key \<Rightarrow> (key \<times> pval) list list \<Rightarrow> pval option" where
  "last_binding k [] = None"
| "last_binding k (b # bs) =
     (case last_binding k bs of Some v \<Rightarrow> Some v | None \<Rightarrow> map_of (rev b) k)"

text \<open>What a block contributes to the output of \<^verbatim>\<open>load_locust_tests\<close>.\<close>

definition weighted :: "store \<Rightarrow> pval \<Rightarrow> pval list" where
  "weighted h item =
     (case entry_of h item of
        None \<Rightarrow> []
      | Some kv \<Rightarrow>
          if fst kv = KStr ''test''
          then (case get_dict h (snd kv) of
                  None \<Rightarrow> []
                | Some block \<Rightarrow>
                    (case range_count (dict_get block ''weight'' (PInt 1)) of
                       None \<Rightarrow> []
                     | Some weight \<Rightarrow> replicate weight (snd kv)))
          else [])"

definition api_state :: state where
  "api_state =
     init_state\<lparr>heap :=
        [ODict [(KStr ''get_user'', PRef 2)], ODict [],
         ODict [(KStr ''request'', PRef 3)], ODict [(KStr ''url'', PStr ''/user'')],
         ODict [(KStr ''name'', PStr ''first''), (KStr ''api'', PStr ''get_user'')],
         ODict [(KStr ''api'', PStr ''missing'')]]\<rparr>"

definition two_apis :: state where
  "two_apis =
     init_state\<lparr>heap := heap init_state @
        [ODict [(KStr ''api'', PRef 3)], ODict [(KStr ''name'', PStr ''a'')],
         ODict [(KStr ''api'', PRef 5)], ODict [(KStr ''name'', PStr ''b'')]]\<rparr>"

definition bad_block :: jval where
  "bad_block = JList [JDict [(KStr ''config'', JInt 5)]]"

definition after_read :: state where
  "after_read = snd (load_file (tests_world bad_block) ''/work/tests/a.yml'' init_state)"

definition after_failure :: state where
  "after_failure =
     (case load_testcase 0 (tests_world bad_block) (PRef 3) after_read of
        None \<Rightarrow> after_read | Some rs \<Rightarrow> snd rs)"

definition two_configs :: state where
  "two_configs =
     snd (store_value
       (JList [JDict [(KStr ''config'', JDict [(KStr ''name'', JStr ''x'')])],
               JDict [(KStr ''config'', JDict [(KStr ''name'', JStr ''y''), (KStr ''variables'', JList [])])]])
       init_state)"

definition weighted_steps :: state where
  "weighted_steps =
     snd (store_value
       (JList [JDict [(KStr ''config'', JDict [(KStr ''name'', JStr ''load'')])],
               JDict [(KStr ''test'', JDict [(KStr ''name'', JStr ''a''), (KStr ''weight'', JInt 3)])],
               JDict [(KStr ''test'', JDict [(KStr ''name'', JStr ''b'')])]])
       init_state)"

text \<open>
  A load-test file whose first step refers to the cached api \<^verbatim>\<open>get_user\<close> and has weight 3,
  parsed into the store that holds the cache.
\<close>

definition weighted_api_steps :: state where
  "weighted_api_steps =
     snd (store_value
       (JList [JDict [(KStr ''config'', JDict [(KStr ''name'', JStr ''load'')])],
               JDict [(KStr ''test'', JDict [(KStr ''name'', JStr ''a''),
                  (KStr ''api'', JStr ''get_user''), (KStr ''weight'', JInt 3)])],
               JDict [(KStr ''test'', JDict [(KStr ''name'', JStr ''b'')])]])
       api_state)"

text \<open>A store whose cache holds one api definition, with two steps that refer to it.\<close>

definition shared_api :: state where
  "shared_api =
     init_state\<lparr>heap :=
        [ODict [(KStr ''get_user'', PRef 2)], ODict [],
         ODict [(KStr ''request'', PRef 3)], ODict [(KStr ''url'', PStr ''/user'')],
         ODict [(KStr ''name'', PStr ''first''), (KStr ''api'', PStr ''get_user'')],
         ODict [(KStr ''name'', PStr ''second''), (KStr ''api'', PStr ''get_user'')]]\<rparr>"

text \<open>The second step, resolved in the state that the first resolution left.\<close>

definition resolve_both :: "(error + pval) \<times> state \<Rightarrow> ((error + pval) \<times> state) option" where
  "resolve_both r = load_teststep 0 empty_world (PRef 5) (snd r)"

section \<open>Properties\<close>

section \<open>The environment file: properties\<close>

lemma env_lines_bad:
  "\<exists>l \<in> set ls. CHR ''='' \<notin> set l \<and> CHR '':'' \<notin> set l \<Longrightarrow> env_lines ls m = Inl FileFormatError"
  by (induction ls arbitrary: m) (auto simp: split_once_def)

lemma split_once_first: "c \<notin> set a \<Longrightarrow> split_once c (a @ c # b) = (a, b)"
  by (induction a) (auto simp: split_once_def)

lemma env_lines_parts:
  "list_all first_separator parts \<Longrightarrow>
   env_lines (map line_of parts) m = Inr (fold bind_part parts m)"
proof (induction parts arbitrary: m)
  case Nil
  then show ?case by simp
next
  case (Cons part parts)
  obtain a c b where part: "part = (a, c, b)" by (cases part)
  from Cons.prems have fs: "first_separator (a, c, b)" and rest: "list_all first_separator parts"
    by (simp_all add: part)
  from fs consider (eq) "c = CHR ''=''" "CHR ''='' \<notin> set a"
    | (colon) "c = CHR '':''" "CHR '':'' \<notin> set a" "CHR ''='' \<notin> set a" "CHR ''='' \<notin> set b"
    by (auto simp: first_separator_def)
  then show ?case
  proof cases
    case eq
    then show ?thesis
      using Cons.IH [OF rest] by (simp add: part line_of_def bind_part_def split_once_first)
  next
    case colon
    then show ?thesis
      using Cons.IH [OF rest] by (simp add: part line_of_def bind_part_def split_once_first)
  qed
qed

text \<open>
  C6. An environment file whose lines are \<^verbatim>\<open>A=1\<close> and \<^verbatim>\<open>B:2\<close> (the last line with or
  without its line end) parses to the mapping of A to 1 and B to 2; a file with a line
  that has neither \<^verbatim>\<open>=\<close> nor \<^verbatim>\<open>:\<close> makes \<^verbatim>\<open>load_dot_env_file\<close> fail with
  \<^verbatim>\<open>FileFormatError\<close>. In general, a file all of whose lines have a separator parses to
  the mapping that results from binding, line after line, the stripped text before the
  separator to the stripped text after it, where the separator of a line is its first
  \<^verbatim>\<open>=\<close>, or its first \<^verbatim>\<open>:\<close> when it has no \<^verbatim>\<open>=\<close>.
\<close>

theorem load_dot_env_file_lines:
  "(isfile w p \<and> file_lines w p = [''A=1'' @ [CHR 0x0A], ''B:2'' @ e] \<and> e \<in> {[], [CHR 0x0A]}
      \<longrightarrow> fst (load_dot_env_file w p s) = Inr [(''A'', ''1''), (''B'', ''2'')])
   \<and> (isfile w p \<and> (\<exists>l \<in> set (file_lines w p). CHR ''='' \<notin> set l \<and> CHR '':'' \<notin> set l)
      \<longrightarrow> fst (load_dot_env_file w p s) = Inl FileFormatError)
   \<and> (isfile w p \<and> file_lines w p = map line_of parts \<and> list_all first_separator parts
      \<longrightarrow> fst (load_dot_env_file w p s) = Inr (fold bind_part parts []))"
proof (intro conjI impI)
  assume a: "isfile w p \<and> file_lines w p = [''A=1'' @ [CHR 0x0A], ''B:2'' @ e] \<and> e \<in> {[], [CHR 0x0A]}"
  have sp: "is_space (CHR 0x0A)" "\<not> is_space CHR ''A''" "\<not> is_space CHR ''B''"
    "\<not> is_space CHR ''1''" "\<not> is_space CHR ''2''"
    by (simp_all add: is_space_def)
  from a show "fst (load_dot_env_file w p s) = Inr [(''A'', ''1''), (''B'', ''2'')]"
    by (auto simp: load_dot_env_file_def Let_def split_once_def strip_def sp)
next
  assume "isfile w p \<and> (\<exists>l \<in> set (file_lines w p). CHR ''='' \<notin> set l \<and> CHR '':'' \<notin> set l)"
  then show "fst (load_dot_env_file w p s) = Inl FileFormatError"
    by (simp add: load_dot_env_file_def Let_def env_lines_bad)
next
  assume "isfile w p \<and> file_lines w p = map line_of parts \<and> list_all first_separator parts"
  then show "fst (load_dot_env_file w p s) = Inr (fold bind_part parts [])"
    by (simp add: load_dot_env_file_def Let_def env_lines_parts)
qed

theorem load_dot_env_file_lines_witness:
  "fst (load_dot_env_file (env_world [''A=1'' @ [CHR 0x0A], ''B:2'']) ''/work/.env'' init_state)
     = Inr [(''A'', ''1''), (''B'', ''2'')]
   \<and> fst (load_dot_env_file (env_world [''A=1'' @ [CHR 0x0A], ''C'' @ [CHR 0x0A]]) ''/work/.env'' init_state)
     = Inl FileFormatError
   \<and> fst (load_dot_env_file
        (env_world ['' A = b=c '' @ [CHR 0x0A], ''B : 2:3'' @ [CHR 0x0A], ''C:d=e'', ''A=x''])
        ''/work/.env'' init_state)
     = Inr [(''A'', ''x''), (''B'', ''2:3''), (''C:d'', ''e'')]"
proof -
  let ?parts = "[('' A '', CHR ''='', '' b=c '' @ [CHR 0x0A]), (''B '', CHR '':'', '' 2:3'' @ [CHR 0x0A]),
      (''C:d'', CHR ''='', ''e''), (''A'', CHR ''='', ''x'')]"
  have f: "fold bind_part ?parts [] = [(''A'', ''x''), (''B'', ''2:3''), (''C:d'', ''e'')]"
    by code_simp
  have l: "list_all first_separator ?parts" by code_simp
  from load_dot_env_file_lines [of "env_world [''A=1'' @ [CHR 0x0A], ''B:2'']" "''/work/.env''" "[]" init_state]
  have 1: "fst (load_dot_env_file (env_world [''A=1'' @ [CHR 0x0A], ''B:2'']) ''/work/.env'' init_state)
     = Inr [(''A'', ''1''), (''B'', ''2'')]"
    by (simp add: env_world_def empty_world_def)
  from load_dot_env_file_lines [of "env_world [''A=1'' @ [CHR 0x0A], ''C'' @ [CHR 0x0A]]" "''/work/.env''" "[]" init_state]
  have 2: "fst (load_dot_env_file (env_world [''A=1'' @ [CHR 0x0A], ''C'' @ [CHR 0x0A]]) ''/work/.env'' init_state)
     = Inl FileFormatError"
    by (simp add: env_world_def empty_world_def)
  from load_dot_env_file_lines [of "env_world (map line_of ?parts)" "''/work/.env''" "[]" init_state ?parts] l
  have "fst (load_dot_env_file (env_world (map line_of ?parts)) ''/work/.env'' init_state)
     = Inr (fold bind_part ?parts [])"
    by (simp add: env_world_def empty_world_def)
  then have 3: "fst (load_dot_env_file
        (env_world ['' A = b=c '' @ [CHR 0x0A], ''B : 2:3'' @ [CHR 0x0A], ''C:d=e'', ''A=x''])
        ''/work/.env'' init_state)
     = Inr [(''A'', ''x''), (''B'', ''2:3''), (''C:d'', ''e'')]"
    unfolding f by (simp add: line_of_def)
  from 1 2 3 show ?thesis by simp
qed

section \<open>Locating the anchor file: properties\<close>

lemma locate_file_chain:
  "\<forall>i \<le> k. \<not> isfile w (ancestor w i d) \<and> \<not> isfile w (path_join w (ancestor w i d) f) \<Longrightarrow>
   abspath w (ancestor w k d) \<in> {getcwd w, abspath w (sep w)} \<Longrightarrow> k < n \<Longrightarrow>
   locate_file n w d f = Some (Inl FileNotFound)"
proof (induction k arbitrary: d n)
  case 0
  then obtain m where n: "n = Suc m" by (cases n) auto
  from 0 show ?case unfolding n by (auto simp: Let_def)
next
  case (Suc k)
  then obtain m where n: "n = Suc m" by (cases n) auto
  from Suc.prems(1) have here: "\<not> isfile w d" "\<not> isfile w (path_join w d f)"
    by (metis ancestor.simps(1) le0)+
  have up: "\<forall>i \<le> k. \<not> isfile w (ancestor w i (dirname w d)) \<and> \<not> isfile w (path_join w (ancestor w i (dirname w d)) f)"
  proof (intro allI impI)
    fix i assume "i \<le> k"
    then have "Suc i \<le> Suc k" by simp
    with Suc.prems(1) show "\<not> isfile w (ancestor w i (dirname w d)) \<and> \<not> isfile w (path_join w (ancestor w i (dirname w d)) f)"
      by (metis ancestor.simps(2))
  qed
  from Suc.prems(2) have top: "abspath w (ancestor w k (dirname w d)) \<in> {getcwd w, abspath w (sep w)}"
    by simp
  from Suc.prems(3) n have "k < m" by simp
  from Suc.IH [OF up top this] have rec: "locate_file m w (dirname w d) f = Some (Inl FileNotFound)" .
  show ?case unfolding n using here rec by (simp add: Let_def)
qed

text \<open>
  C5. \<^verbatim>\<open>locate_file\<close> started from a directory that holds the anchor file returns the
  absolute path of that file; started from a directory whose \<open>k\<close>-th parent is the
  working directory or the root, with no anchor at any level up to there, it fails with
  \<^verbatim>\<open>FileNotFound\<close> (given more than \<open>k\<close> calls); otherwise it continues with the call
  for the parent directory.
\<close>

theorem locate_file_levels:
  "(isdir w d \<and> \<not> isfile w d \<and> isfile w (path_join w d f)
      \<longrightarrow> locate_file (Suc n) w d f = Some (Inr (abspath w (path_join w d f))))
   \<and> ((\<forall>i \<le> k. \<not> isfile w (ancestor w i d) \<and> \<not> isfile w (path_join w (ancestor w i d) f))
        \<and> abspath w (ancestor w k d) \<in> {getcwd w, abspath w (sep w)} \<and> k < m
      \<longrightarrow> locate_file m w d f = Some (Inl FileNotFound))
   \<and> (isdir w d \<and> \<not> isfile w d \<and> \<not> isfile w (path_join w d f)
        \<and> abspath w d \<notin> {getcwd w, abspath w (sep w)}
      \<longrightarrow> locate_file (Suc n) w d f = locate_file n w (dirname w d) f)"
  using locate_file_chain [of k w d f m] by (simp add: Let_def)

theorem locate_file_levels_witness:
  "locate_file 1 (project_world\<lparr>isfile := (\<lambda>p. p = ''/work/debugtalk.py'')\<rparr>) ''/work'' ''debugtalk.py''
     = Some (Inr ''/work/debugtalk.py'')
   \<and> locate_file 3 project_world ''/work/tests/sub'' ''debugtalk.py'' = Some (Inl FileNotFound)
   \<and> locate_file 2 (project_world\<lparr>isfile := (\<lambda>p. p = ''/work/debugtalk.py'')\<rparr>) ''/work/tests'' ''debugtalk.py''
     = locate_file 1 (project_world\<lparr>isfile := (\<lambda>p. p = ''/work/debugtalk.py'')\<rparr>) ''/work'' ''debugtalk.py''"
proof -
  let ?w = "project_world\<lparr>isfile := (\<lambda>p. p = ''/work/debugtalk.py'')\<rparr>"
  have a: "locate_file (Suc 0) ?w ''/work'' ''debugtalk.py'' = Some (Inr ''/work/debugtalk.py'')"
    using locate_file_levels [of ?w "''/work''" "''debugtalk.py''" 0 0 0]
    by (simp add: project_world_def empty_world_def posix_join_def)
  have b: "locate_file 3 project_world ''/work/tests/sub'' ''debugtalk.py'' = Some (Inl FileNotFound)"
    using locate_file_levels [of project_world "''/work/tests/sub''" "''debugtalk.py''" 0 "Suc (Suc 0)" 3]
    by (simp add: project_world_def empty_world_def posix_dirname_def le_Suc_eq)
  have c: "locate_file (Suc (Suc 0)) ?w ''/work/tests'' ''debugtalk.py''
     = locate_file (Suc 0) ?w ''/work'' ''debugtalk.py''"
    using locate_file_levels [of ?w "''/work/tests''" "''debugtalk.py''" "Suc 0" 0 0]
    by (simp add: project_world_def empty_world_def posix_join_def posix_dirname_def)
  from a b c show ?thesis by (simp add: numeral_2_eq_2)
qed

text \<open>
  C1 (not what the code does). A step that refers to the testcase \<^verbatim>\<open>tc.json\<close> is resolved
  twice in the state of a process that has loaded nothing yet. The lookup asks the dict
  \<^verbatim>\<open>tests_def_mapping["testcases"]\<close>, the result is stored in \<^verbatim>\<open>tests_def_mapping\<close>
  itself, so the second resolution finds nothing and hands the file to the parser again.
\<close>

theorem load_teststep_parses_again:
  "(case load_teststep 1 nested_world (PRef 2) two_steps of
      Some (Inr r1, s1) \<Rightarrow>
        (case load_teststep 1 nested_world (PRef 3) s1 of
           Some (Inr r2, s2) \<Rightarrow> Some (parsed s1, parsed s2)
         | _ \<Rightarrow> None)
    | _ \<Rightarrow> None)
   = Some ([''/work/tc.json''], [''/work/tc.json'', ''/work/tc.json''])"
  by code_simp

lemma reify_mono_aux:
  "reify n h v = Some t \<Longrightarrow> reify (Suc n) h v = Some t"
  "reify_list n h vs = Some ts \<Longrightarrow> reify_list (Suc n) h vs = Some ts"
  "reify_items n h es = Some kts \<Longrightarrow> reify_items (Suc n) h es = Some kts"
proof (induction n h v and n h vs and n h es arbitrary: t and ts and kts
    rule: reify_reify_list_reify_items.induct)
  case (6 n h a)
  then show ?case by (auto split: obj.splits if_splits)
next
  case (8 n h v vs)
  then show ?case by (auto split: option.splits)
next
  case (10 n h kv es)
  then show ?case by (auto split: option.splits)
qed simp_all

lemma reify_mono: "reify n h v = Some t \<Longrightarrow> n \<le> m \<Longrightarrow> reify m h v = Some t"
proof (induction m)
  case 0
  then show ?case by simp
next
  case (Suc m)
  show ?case
  proof (cases "n = Suc m")
    case True
    with Suc.prems show ?thesis by simp
  next
    case False
    with Suc have "reify m h v = Some t" by simp
    then show ?thesis by (rule reify_mono_aux)
  qed
qed

lemma reify_append_aux:
  "reify n h v = Some t \<Longrightarrow> reify n (h @ ext) v = Some t"
  "reify_list n h vs = Some ts \<Longrightarrow> reify_list n (h @ ext) vs = Some ts"
  "reify_items n h es = Some kts \<Longrightarrow> reify_items n (h @ ext) es = Some kts"
proof (induction n h v and n h vs and n h es arbitrary: t and ts and kts
    rule: reify_reify_list_reify_items.induct)
  case (6 n h a)
  then show ?case by (auto simp: nth_append split: obj.splits if_splits)
next
  case (8 n h v vs)
  then show ?case by (auto split: option.splits)
next
  case (10 n h kv es)
  then show ?case by (auto split: option.splits)
qed simp_all

lemma alloc_reify_aux:
  "\<forall>v h'. alloc t h = (v, h') \<longrightarrow>
      (\<exists>new. h' = h @ new \<and>
         (\<forall>pre ext n. length pre = length h \<longrightarrow> length new \<le> n \<longrightarrow>
            reify n (pre @ new @ ext) v = Some t))"
  "\<forall>vs h'. alloc_list ts h = (vs, h') \<longrightarrow>
      (\<exists>new. h' = h @ new \<and>
         (\<forall>pre ext n. length pre = length h \<longrightarrow> length new \<le> n \<longrightarrow>
            reify_list n (pre @ new @ ext) vs = Some ts))"
  "\<forall>es h'. alloc_items kts h = (es, h') \<longrightarrow>
      (\<exists>new. h' = h @ new \<and>
         (\<forall>pre ext n. length pre = length h \<longrightarrow> length new \<le> n \<longrightarrow>
            reify_items n (pre @ new @ ext) es = Some kts))"
proof (induction t h and ts h and kts h rule: alloc_alloc_list_alloc_items.induct)
  case (5 xs h)
  show ?case
  proof (intro allI impI)
    fix v h' assume a: "alloc (JList xs) h = (v, h')"
    obtain vs h1 where al: "alloc_list xs h = (vs, h1)" by (cases "alloc_list xs h")
    with 5 obtain new where new: "h1 = h @ new"
      and r: "\<And>pre ext n. length pre = length h \<Longrightarrow> length new \<le> n \<Longrightarrow>
            reify_list n (pre @ new @ ext) vs = Some xs" by blast
    from a al new have v: "v = PRef (length h + length new)" and h': "h' = h @ (new @ [OList vs])"
      by (auto simp: new_obj_def)
    have "reify n (pre @ (new @ [OList vs]) @ ext) v = Some (JList xs)"
      if "length pre = length h" "length (new @ [OList vs]) \<le> n" for pre ext n
    proof -
      from that obtain m where n: "n = Suc m" and m: "length new \<le> m" by (cases n) auto
      have idx: "(pre @ new @ OList vs # ext) ! (length h + length new) = OList vs"
        using that(1) by (metis append.assoc length_append nth_append_length)
      from r [OF that(1) m, of "OList vs # ext"] show ?thesis
        using that(1) idx by (simp add: v n)
    qed
    with h' show "\<exists>new. h' = h @ new \<and>
         (\<forall>pre ext n. length pre = length h \<longrightarrow> length new \<le> n \<longrightarrow>
            reify n (pre @ new @ ext) v = Some (JList xs))" by blast
  qed
next
  case (6 kvs h)
  show ?case
  proof (intro allI impI)
    fix v h' assume a: "alloc (JDict kvs) h = (v, h')"
    obtain es h1 where al: "alloc_items kvs h = (es, h1)" by (cases "alloc_items kvs h")
    with 6 obtain new where new: "h1 = h @ new"
      and r: "\<And>pre ext n. length pre = length h \<Longrightarrow> length new \<le> n \<Longrightarrow>
            reify_items n (pre @ new @ ext) es = Some kvs" by blast
    from a al new have v: "v = PRef (length h + length new)" and h': "h' = h @ (new @ [ODict es])"
      by (auto simp: new_obj_def)
    have "reify n (pre @ (new @ [ODict es]) @ ext) v = Some (JDict kvs)"
      if "length pre = length h" "length (new @ [ODict es]) \<le> n" for pre ext n
    proof -
      from that obtain m where n: "n = Suc m" and m: "length new \<le> m" by (cases n) auto
      have idx: "(pre @ new @ ODict es # ext) ! (length h + length new) = ODict es"
        using that(1) by (metis append.assoc length_append nth_append_length)
      from r [OF that(1) m, of "ODict es # ext"] show ?thesis
        using that(1) idx by (simp add: v n)
    qed
    with h' show "\<exists>new. h' = h @ new \<and>
         (\<forall>pre ext n. length pre = length h \<longrightarrow> length new \<le> n \<longrightarrow>
            reify n (pre @ new @ ext) v = Some (JDict kvs))" by blast
  qed
next
  case (8 x xs h)
  show ?case
  proof (intro allI impI)
    fix vs h' assume a: "alloc_list (x # xs) h = (vs, h')"
    obtain v h1 where a1: "alloc x h = (v, h1)" by (cases "alloc x h")
    obtain vs2 h2 where a2: "alloc_list xs h1 = (vs2, h2)" by (cases "alloc_list xs h1")
    from 8(1) a1 obtain new1 where n1: "h1 = h @ new1"
      and r1: "\<And>pre ext n. length pre = length h \<Longrightarrow> length new1 \<le> n \<Longrightarrow>
            reify n (pre @ new1 @ ext) v = Some x" by blast
    from 8(2) [OF a1 [symmetric]] a1 a2 obtain new2 where n2: "h2 = h1 @ new2"
      and r2: "\<And>pre ext n. length pre = length h1 \<Longrightarrow> length new2 \<le> n \<Longrightarrow>
            reify_list n (pre @ new2 @ ext) vs2 = Some xs" by blast
    from a a1 a2 have vs: "vs = v # vs2" and h': "h' = h @ (new1 @ new2)"
      by (auto simp: n1 n2)
    have "reify_list n (pre @ (new1 @ new2) @ ext) vs = Some (x # xs)"
      if "length pre = length h" "length (new1 @ new2) \<le> n" for pre ext n
    proof -
      from that have "reify n (pre @ new1 @ (new2 @ ext)) v = Some x"
        by (intro r1) auto
      moreover from that have "reify_list n ((pre @ new1) @ new2 @ ext) vs2 = Some xs"
        by (intro r2) (auto simp: n1)
      ultimately show ?thesis by (simp add: vs)
    qed
    with h' show "\<exists>new. h' = h @ new \<and>
         (\<forall>pre ext n. length pre = length h \<longrightarrow> length new \<le> n \<longrightarrow>
            reify_list n (pre @ new @ ext) vs = Some (x # xs))" by blast
  qed
next
  case (10 kv kvs h)
  show ?case
  proof (intro allI impI)
    fix es h' assume a: "alloc_items (kv # kvs) h = (es, h')"
    obtain v h1 where a1: "alloc (snd kv) h = (v, h1)" by (cases "alloc (snd kv) h")
    obtain es2 h2 where a2: "alloc_items kvs h1 = (es2, h2)" by (cases "alloc_items kvs h1")
    from 10(1) a1 obtain new1 where n1: "h1 = h @ new1"
      and r1: "\<And>pre ext n. length pre = length h \<Longrightarrow> length new1 \<le> n \<Longrightarrow>
            reify n (pre @ new1 @ ext) v = Some (snd kv)" by blast
    from 10(2) [OF a1 [symmetric]] a1 a2 obtain new2 where n2: "h2 = h1 @ new2"
      and r2: "\<And>pre ext n. length pre = length h1 \<Longrightarrow> length new2 \<le> n \<Longrightarrow>
            reify_items n (pre @ new2 @ ext) es2 = Some kvs" by blast
    from a a1 a2 have es: "es = (fst kv, v) # es2" and h': "h' = h @ (new1 @ new2)"
      by (auto simp: n1 n2)
    have "reify_items n (pre @ (new1 @ new2) @ ext) es = Some (kv # kvs)"
      if "length pre = length h" "length (new1 @ new2) \<le> n" for pre ext n
    proof -
      from that have "reify n (pre @ new1 @ (new2 @ ext)) v = Some (snd kv)"
        by (intro r1) auto
      moreover from that have "reify_items n ((pre @ new1) @ new2 @ ext) es2 = Some kvs"
        by (intro r2) (auto simp: n1)
      ultimately show ?thesis by (simp add: es)
    qed
    with h' show "\<exists>new. h' = h @ new \<and>
         (\<forall>pre ext n. length pre = length h \<longrightarrow> length new \<le> n \<longrightarrow>
            reify_items n (pre @ new @ ext) es = Some (kv # kvs))" by blast
  qed
qed simp_all

lemma alloc_reify:
  "alloc t h = (v, h') \<Longrightarrow>
     \<exists>new. h' = h @ new \<and>
       (\<forall>pre ext n. length pre = length h \<longrightarrow> length new \<le> n \<longrightarrow>
          reify n (pre @ new @ ext) v = Some t)"
  using alloc_reify_aux(1) [of t h] by blast

lemma store_value_alloc:
  "store_value content s = (Inr (fst (alloc content (heap s))), s\<lparr>heap := snd (alloc content (heap s))\<rparr>)"
  by (simp add: store_value_def split: prod.splits)

lemma get_dict_SomeD:
  "get_dict h v = Some es \<Longrightarrow> \<exists>a. v = PRef a \<and> a < length h \<and> h ! a = ODict es"
  by (auto simp: get_dict_def split: pval.splits if_splits obj.splits)

lemma map_of_in_keys: "map_of es k = Some x \<Longrightarrow> k \<in> fst ` set es"
  by (metis domI dom_map_of_conv_image_fst)

lemma contains_str_dict:
  "get_dict h v = Some es \<Longrightarrow> contains_str name v h = Inr (KStr name \<in> fst ` set es)"
  by (auto simp: contains_str_def dest!: get_dict_SomeD)

lemma attach_dict:
  "get_dict (heap s) (PRef a) = Some es \<Longrightarrow>
   attach (PRef a) name x s = (Inr (PRef a), s\<lparr>heap := (heap s)[a := ODict (AList.update (KStr name) x es)]\<rparr>)"
  by (simp add: attach_def setitem_str_def)

lemma load_teststep_api_branch:
  assumes "get_dict (heap s) raw_stepinfo = Some es" "map_of es (KStr ''api'') = Some name"
  shows "load_teststep n w raw_stepinfo s =
     (case get_api_definition name s of
        (Inl e, s1) \<Rightarrow> Some (Inl e, s1)
      | (Inr api_def, s1) \<Rightarrow> Some (attach raw_stepinfo ''api_def'' api_def s1))"
  using assms
  by (simp add: load_teststep.simps contains_str_dict map_of_in_keys getitem_str_def)

text \<open>
  C4. For a step block with an \<^verbatim>\<open>"api"\<close> key whose value is hashable (ids are strings),
  and with the cache \<^verbatim>\<open>tests_def_mapping["api"]\<close> in place: \<^verbatim>\<open>load_teststep\<close> raises
  \<^verbatim>\<open>ApiNotFound\<close> if and only if the id is absent from the cache; when the id is present
  and its definition is a finite value, no error is raised, the step is returned, and it
  holds under \<^verbatim>\<open>"api_def"\<close> a definition with the value of the cached one.
\<close>

theorem load_teststep_api:
  assumes step: "get_dict (heap s) raw_stepinfo = Some es"
    and api: "map_of es (KStr ''api'') = Some name"
    and hashable: "to_key name = Some k"
    and cache: "map_of (tests_def_mapping s) (KStr ''api'') = Some apis"
    and defs: "get_dict (heap s) apis = Some defs"
  shows "((\<exists>s'. load_teststep n w raw_stepinfo s = Some (Inl ApiNotFound, s')) \<longleftrightarrow> map_of defs k = None)
     \<and> (\<forall>block content. map_of defs k = Some block \<and> value_of (heap s) block = Some content \<longrightarrow>
          (\<exists>api_def s'. load_teststep n w raw_stepinfo s = Some (Inr raw_stepinfo, s')
             \<and> get_dict (heap s') raw_stepinfo = Some (AList.update (KStr ''api_def'') api_def es)
             \<and> value_of (heap s') api_def = Some content))"
proof (intro conjI allI impI)
  from step obtain a where a: "raw_stepinfo = PRef a" "a < length (heap s)" "heap s ! a = ODict es"
    by (auto dest: get_dict_SomeD)
  note br = load_teststep_api_branch [OF step api, of n w]
  show "(\<exists>s'. load_teststep n w raw_stepinfo s = Some (Inl ApiNotFound, s')) \<longleftrightarrow> map_of defs k = None"
  proof (cases "map_of defs k")
    case None
    then show ?thesis
      by (simp add: br get_api_definition_def cache defs hashable)
  next
    case (Some block)
    have "get_dict (heap (s\<lparr>heap := h\<rparr>)) raw_stepinfo = Some es" if "length (heap s) \<le> length h" "h ! a = ODict es" for h
      using that a by (simp add: get_dict_def)
    have "load_teststep n w raw_stepinfo s \<noteq> Some (Inl ApiNotFound, s')" for s'
    proof (cases "value_of (heap s) block")
      case None
      then show ?thesis
        by (simp add: br get_api_definition_def cache defs hashable Some deepcopy_dict_def)
    next
      case (Some content)
      obtain v h' where al: "alloc content (heap s) = (v, h')" by (cases "alloc content (heap s)")
      from alloc_reify [OF al] obtain new where h': "h' = heap s @ new" by blast
      have "get_dict h' (PRef a) = Some es" using a by (simp add: h' get_dict_def nth_append)
      then show ?thesis
        by (simp add: br [unfolded a(1)] get_api_definition_def cache defs hashable
            \<open>map_of defs k = Some block\<close>
            deepcopy_dict_def Some store_value_alloc al a(1) attach_dict)
    qed
    with Some show ?thesis by simp
  qed
next
  fix block content
  assume b: "map_of defs k = Some block \<and> value_of (heap s) block = Some content"
  from step obtain a where a: "raw_stepinfo = PRef a" "a < length (heap s)" "heap s ! a = ODict es"
    by (auto dest: get_dict_SomeD)
  obtain v h' where al: "alloc content (heap s) = (v, h')" by (cases "alloc content (heap s)")
  from alloc_reify [OF al] obtain new where h': "h' = heap s @ new"
    and r: "\<And>pre ext n. length pre = length (heap s) \<Longrightarrow> length new \<le> n \<Longrightarrow>
            reify n (pre @ new @ ext) v = Some content" by blast
  have gd: "get_dict h' (PRef a) = Some es" using a by (simp add: h' get_dict_def nth_append)
  let ?h = "h'[a := ODict (AList.update (KStr ''api_def'') v es)]"
  let ?s = "s\<lparr>heap := ?h\<rparr>"
  have run: "load_teststep n w raw_stepinfo s = Some (Inr raw_stepinfo, ?s)"
    using b gd
    by (simp add: load_teststep_api_branch [OF step api, unfolded a(1)] get_api_definition_def
        cache defs hashable deepcopy_dict_def store_value_alloc al a(1) attach_dict)
  have "?h = (heap s)[a := ODict (AList.update (KStr ''api_def'') v es)] @ new @ []"
    using a(2) by (simp add: h' list_update_append)
  then have val: "value_of ?h v = Some content"
    using r [of "(heap s)[a := ODict (AList.update (KStr ''api_def'') v es)]" "length ?h" "[]"]
    by (simp add: value_of_def h')
  have "get_dict ?h raw_stepinfo = Some (AList.update (KStr ''api_def'') v es)"
    using a by (simp add: get_dict_def h')
  with run val show "\<exists>api_def s'. load_teststep n w raw_stepinfo s = Some (Inr raw_stepinfo, s')
             \<and> get_dict (heap s') raw_stepinfo = Some (AList.update (KStr ''api_def'') api_def es)
             \<and> value_of (heap s') api_def = Some content"
    by (intro exI [of _ v] exI [of _ ?s]) simp
qed

lemma get_dict_update_other:
  "item \<noteq> PRef a \<Longrightarrow> get_dict (h[a := ob]) item = get_dict h item"
  by (cases item) (auto simp: get_dict_def)

lemma get_dict_update_same:
  "a < length h \<Longrightarrow> get_dict (h[a := ODict es]) (PRef a) = Some es"
  by (simp add: get_dict_def)

lemma butlast_keys: "k \<notin> fst ` set es \<Longrightarrow> k \<notin> fst ` set (butlast es)"
  by (auto dest: in_set_butlastD)

lemma lacks_id_popped:
  assumes "lacks_id h item" "item \<noteq> PRef a" "get_dict h (PRef a) = Some pairs"
  shows "lacks_id (h[a := ODict (butlast pairs)]) item
     \<and> last_pair (h[a := ODict (butlast pairs)]) item = last_pair h item"
proof -
  from assms(2) have same: "get_dict (h[a := ODict (butlast pairs)]) item = get_dict h item"
    by (rule get_dict_update_other)
  then have lp: "last_pair (h[a := ODict (butlast pairs)]) item = last_pair h item"
    by (simp add: last_pair_def)
  from assms(1) obtain kv fs where kv: "last_pair h item = Some kv"
    and fs: "get_dict h (snd kv) = Some fs" "KStr ''id'' \<notin> fst ` set fs"
    by (auto simp: lacks_id_def split: option.splits)
  have "\<exists>fs'. get_dict (h[a := ODict (butlast pairs)]) (snd kv) = Some fs' \<and> KStr ''id'' \<notin> fst ` set fs'"
  proof (cases "snd kv = PRef a")
    case True
    with fs assms(3) have "fs = pairs" by simp
    moreover from assms(3) have "a < length h" by (auto dest: get_dict_SomeD)
    ultimately show ?thesis using fs(2) True by (simp add: get_dict_update_same butlast_keys)
  next
    case False
    then show ?thesis using fs by (simp add: get_dict_update_other)
  qed
  with kv lp show ?thesis by (auto simp: lacks_id_def)
qed

lemma load_api_items_lacks_id_step:
  assumes "lacks_id (heap s) item"
  shows "\<exists>a pairs. item = PRef a \<and> get_dict (heap s) item = Some pairs \<and> pairs \<noteq> [] \<and>
     load_api_items (item # rest) m s =
       load_api_items rest (AList.update KNone (snd (last pairs)) m)
         (if KNone \<in> fst ` set m
          then log_msg (Warn_api_duplicated KNone) (s\<lparr>heap := (heap s)[a := ODict (butlast pairs)]\<rparr>)
          else s\<lparr>heap := (heap s)[a := ODict (butlast pairs)]\<rparr>)"
proof -
  from assms obtain pairs fs where p: "get_dict (heap s) item = Some pairs" "pairs \<noteq> []"
    and fs: "get_dict (heap s) (snd (last pairs)) = Some fs" "KStr ''id'' \<notin> fst ` set fs"
    by (auto simp: lacks_id_def last_pair_def split: option.splits if_splits)
  from p(1) obtain a where a: "item = PRef a" "a < length (heap s)" by (auto dest: get_dict_SomeD)
  have "\<exists>fs'. get_dict ((heap s)[a := ODict (butlast pairs)]) (snd (last pairs)) = Some fs'
      \<and> KStr ''id'' \<notin> fst ` set fs'"
  proof (cases "snd (last pairs) = PRef a")
    case True
    with fs p(1) a have "fs = pairs" by simp
    then show ?thesis using fs(2) True a by (simp add: get_dict_update_same butlast_keys)
  next
    case False
    then show ?thesis using fs by (simp add: get_dict_update_other)
  qed
  then obtain fs' where fs': "get_dict ((heap s)[a := ODict (butlast pairs)]) (snd (last pairs)) = Some fs'"
    "map_of fs' (KStr ''id'') = None"
    by (auto simp: map_of_eq_None_iff)
  obtain k api_dict where l: "last pairs = (k, api_dict)" by (cases "last pairs")
  have "load_api_items (item # rest) m s =
       load_api_items rest (AList.update KNone (snd (last pairs)) m)
         (if KNone \<in> fst ` set m
          then log_msg (Warn_api_duplicated KNone) (s\<lparr>heap := (heap s)[a := ODict (butlast pairs)]\<rparr>)
          else s\<lparr>heap := (heap s)[a := ODict (butlast pairs)]\<rparr>)"
    using p fs' a l by (simp add: popitem_def)
  with p a show ?thesis by blast
qed

text \<open>
  C10. The loop of \<^verbatim>\<open>load_api_folder\<close> over distinct blocks whose definitions are dicts
  without an \<^verbatim>\<open>"id"\<close> field does not fail. The definitions are cached under the key
  \<^verbatim>\<open>None\<close>, every other key of the cache is as before, the definition of the last block
  is the one that stays, and every block after the first one under \<^verbatim>\<open>None\<close> logs the
  duplicate warning.
\<close>

theorem load_api_items_without_id:
  assumes "distinct items" "\<forall>item \<in> set items. lacks_id (heap s) item"
  shows "\<exists>m' s'. load_api_items items m s = (Inr m', s')
      \<and> (items \<noteq> [] \<longrightarrow> map_of m' KNone = map_option snd (last_pair (heap s) (last items)))
      \<and> (\<forall>k. k \<noteq> KNone \<longrightarrow> map_of m' k = map_of m k)
      \<and> logged s' = logged s @
           replicate (length items - (if KNone \<in> fst ` set m then 0 else 1)) (Warn_api_duplicated KNone)"
  using assms
proof (induction items arbitrary: m s)
  case Nil
  then show ?case by simp
next
  case (Cons item rest)
  from Cons.prems have li: "lacks_id (heap s) item" by simp
  from load_api_items_lacks_id_step [OF li, of rest m]
  obtain a pairs where a: "item = PRef a" and p: "get_dict (heap s) item = Some pairs" "pairs \<noteq> []"
    and step: "load_api_items (item # rest) m s =
       load_api_items rest (AList.update KNone (snd (last pairs)) m)
         (if KNone \<in> fst ` set m
          then log_msg (Warn_api_duplicated KNone) (s\<lparr>heap := (heap s)[a := ODict (butlast pairs)]\<rparr>)
          else s\<lparr>heap := (heap s)[a := ODict (butlast pairs)]\<rparr>)"
    by blast
  let ?h1 = "(heap s)[a := ODict (butlast pairs)]"
  let ?s1 = "if KNone \<in> fst ` set m
          then log_msg (Warn_api_duplicated KNone) (s\<lparr>heap := ?h1\<rparr>)
          else s\<lparr>heap := ?h1\<rparr>"
  let ?m1 = "AList.update KNone (snd (last pairs)) m"
  have h1: "heap ?s1 = ?h1" by (simp add: log_msg_def)
  have rest: "\<forall>x \<in> set rest. lacks_id ?h1 x \<and> last_pair ?h1 x = last_pair (heap s) x"
  proof
    fix x assume x: "x \<in> set rest"
    with Cons.prems have "lacks_id (heap s) x" "x \<noteq> PRef a" using a by auto
    then show "lacks_id ?h1 x \<and> last_pair ?h1 x = last_pair (heap s) x"
      using p(1) a lacks_id_popped by blast
  qed
  from Cons.prems have "distinct rest" by simp
  moreover from rest have "\<forall>x \<in> set rest. lacks_id (heap ?s1) x" by (simp only: h1) blast
  ultimately obtain m' s' where run: "load_api_items rest ?m1 ?s1 = (Inr m', s')"
    and last: "rest \<noteq> [] \<longrightarrow> map_of m' KNone = map_option snd (last_pair (heap ?s1) (last rest))"
    and others: "\<forall>k. k \<noteq> KNone \<longrightarrow> map_of m' k = map_of ?m1 k"
    and lg: "logged s' = logged ?s1 @
           replicate (length rest - (if KNone \<in> fst ` set ?m1 then 0 else 1)) (Warn_api_duplicated KNone)"
    using Cons.IH [of ?s1 ?m1] by blast
  have in1: "KNone \<in> fst ` set ?m1" by (simp add: dom_update)
  have c1: "(item # rest) \<noteq> [] \<longrightarrow>
      map_of m' KNone = map_option snd (last_pair (heap s) (last (item # rest)))"
  proof (cases "rest = []")
    case True
    with run have "m' = ?m1" by simp
    then show ?thesis using True p by (simp add: update_conv' last_pair_def)
  next
    case False
    then have "last rest \<in> set rest" by simp
    with rest have "last_pair ?h1 (last rest) = last_pair (heap s) (last rest)" by blast
    with last False show ?thesis by (simp add: h1)
  qed
  have c2: "\<forall>k. k \<noteq> KNone \<longrightarrow> map_of m' k = map_of m k"
    using others by (simp add: update_conv')
  have c3: "logged s' = logged s @
      replicate (length (item # rest) - (if KNone \<in> fst ` set m then 0 else 1)) (Warn_api_duplicated KNone)"
    using lg in1 by (auto simp: log_msg_def replicate_app_Cons_same)
  from run step c1 c2 c3 show ?case by (intro exI [of _ m'] exI [of _ s']) simp
qed

text \<open>
  C2 as stated fails: a directory holds \<^verbatim>\<open>a.yml\<close>, whose content is empty, and a
  well-formed \<^verbatim>\<open>b.json\<close>. The empty file fails the format check inside \<^verbatim>\<open>load_file\<close>,
  before the \<^verbatim>\<open>try\<close> of \<^verbatim>\<open>load_test_file\<close>, and the whole load ends with
  \<^verbatim>\<open>FileFormatError\<close>.
\<close>

theorem load_tests_aborts_on_empty_file:
  "map_option fst (load_tests 2 (tests_world JNone) ''/work/tests'' None init_state)
     = Some (Inl FileFormatError)"
  by code_simp

lemma load_test_files_format_error:
  "load_test_files n w ps acc s = Some (Inl FileFormatError, s') \<Longrightarrow>
   \<exists>p \<in> set ps. \<exists>s0 s1. load_file w p s0 = (Inl FileFormatError, s1)"
proof (induction ps arbitrary: acc s)
  case Nil
  then show ?case by simp
next
  case (Cons p ps)
  show ?case
  proof (cases "load_file w p s")
    case (Pair r s1)
    show ?thesis
    proof (cases r)
      case (Inl e)
      with Pair Cons.prems have "e = FileFormatError"
        by (simp add: load_test_file_def)
      with Pair Inl show ?thesis by auto
    next
      case (Inr raw)
      with Pair Cons.prems obtain acc' s2 where "load_test_files n w ps acc' s2 = Some (Inl FileFormatError, s')"
        by (auto simp: load_test_file_def split: option.splits prod.splits sum.splits if_splits)
      from Cons.IH [OF this] show ?thesis by auto
    qed
  qed
qed

text \<open>
  C2, amended. In the loop of \<^verbatim>\<open>load_tests\<close> over the files of a directory, a file that
  \<^verbatim>\<open>load_file\<close> reads and whose assembly by \<^verbatim>\<open>load_testcase\<close> raises
  \<^verbatim>\<open>FileFormatError\<close> is skipped: the loop goes on with the remaining files and the
  same list of testcases. An error of \<^verbatim>\<open>load_file\<close> itself ends the loop. So when the
  loop ends with \<^verbatim>\<open>FileFormatError\<close>, it is \<^verbatim>\<open>load_file\<close> that raised it on one of the
  files, never the assembly.
\<close>

theorem load_test_files_skips:
  "(load_file w p s = (Inr raw, s1) \<and> load_testcase n w raw s1 = Some (Inl FileFormatError, s2)
      \<longrightarrow> load_test_files n w (p # ps) acc s = load_test_files n w ps acc s2)
   \<and> (load_file w p s = (Inl e, s1) \<longrightarrow> load_test_files n w (p # ps) acc s = Some (Inl e, s1))
   \<and> (load_test_files n w ps acc s = Some (Inl FileFormatError, s')
      \<longrightarrow> (\<exists>p \<in> set ps. \<exists>s0 s1. load_file w p s0 = (Inl FileFormatError, s1)))"
  using load_test_files_format_error [of n w ps acc s s']
  by (auto simp: load_test_file_def)

lemma val_ge_mono: "val_ge L v \<Longrightarrow> K \<le> L \<Longrightarrow> val_ge K v"
  by (auto simp: val_ge_def split: pval.splits)

lemma refs_ge_mono: "refs_ge L ob \<Longrightarrow> K \<le> L \<Longrightarrow> refs_ge K ob"
  by (cases ob) (auto simp: refs_ge_def intro: val_ge_mono)

lemma refs_ge_entries: "refs_ge L (ODict es) \<Longrightarrow> K \<le> L \<Longrightarrow> entries_ge K es"
  by (auto simp: refs_ge_def entries_ge_def intro: val_ge_mono)

lemma alloc_refs_aux:
  "\<forall>v h'. alloc t h = (v, h') \<longrightarrow>
      (\<exists>new. h' = h @ new \<and> val_ge (length h) v \<and> (\<forall>ob \<in> set new. refs_ge (length h) ob))"
  "\<forall>vs h'. alloc_list ts h = (vs, h') \<longrightarrow>
      (\<exists>new. h' = h @ new \<and> (\<forall>v \<in> set vs. val_ge (length h) v)
          \<and> (\<forall>ob \<in> set new. refs_ge (length h) ob))"
  "\<forall>es h'. alloc_items kts h = (es, h') \<longrightarrow>
      (\<exists>new. h' = h @ new \<and> (\<forall>kv \<in> set es. val_ge (length h) (snd kv))
          \<and> (\<forall>ob \<in> set new. refs_ge (length h) ob))"
proof (induction t h and ts h and kts h rule: alloc_alloc_list_alloc_items.induct)
  case (5 xs h)
  show ?case
  proof (intro allI impI)
    fix v h' assume a: "alloc (JList xs) h = (v, h')"
    obtain vs h1 where al: "alloc_list xs h = (vs, h1)" by (cases "alloc_list xs h")
    with 5 obtain new where new: "h1 = h @ new" "\<forall>v \<in> set vs. val_ge (length h) v"
      "\<forall>ob \<in> set new. refs_ge (length h) ob" by blast
    from a al new(1) have "v = PRef (length h + length new)" "h' = h @ (new @ [OList vs])"
      by (auto simp: new_obj_def)
    with new show "\<exists>new. h' = h @ new \<and> val_ge (length h) v \<and> (\<forall>ob \<in> set new. refs_ge (length h) ob)"
      by (intro exI [of _ "new @ [OList vs]"]) (auto simp: val_ge_def refs_ge_def)
  qed
next
  case (6 kvs h)
  show ?case
  proof (intro allI impI)
    fix v h' assume a: "alloc (JDict kvs) h = (v, h')"
    obtain es h1 where al: "alloc_items kvs h = (es, h1)" by (cases "alloc_items kvs h")
    with 6 obtain new where new: "h1 = h @ new" "\<forall>kv \<in> set es. val_ge (length h) (snd kv)"
      "\<forall>ob \<in> set new. refs_ge (length h) ob" by blast
    from a al new(1) have "v = PRef (length h + length new)" "h' = h @ (new @ [ODict es])"
      by (auto simp: new_obj_def)
    with new show "\<exists>new. h' = h @ new \<and> val_ge (length h) v \<and> (\<forall>ob \<in> set new. refs_ge (length h) ob)"
      by (intro exI [of _ "new @ [ODict es]"]) (auto simp: val_ge_def refs_ge_def)
  qed
next
  case (8 x xs h)
  show ?case
  proof (intro allI impI)
    fix vs h' assume a: "alloc_list (x # xs) h = (vs, h')"
    obtain v h1 where a1: "alloc x h = (v, h1)" by (cases "alloc x h")
    obtain vs2 h2 where a2: "alloc_list xs h1 = (vs2, h2)" by (cases "alloc_list xs h1")
    from 8(1) a1 obtain new1 where n1: "h1 = h @ new1" "val_ge (length h) v"
      "\<forall>ob \<in> set new1. refs_ge (length h) ob" by blast
    from 8(2) [OF a1 [symmetric]] a2 obtain new2 where n2: "h2 = h1 @ new2"
      "\<forall>v \<in> set vs2. val_ge (length h1) v" "\<forall>ob \<in> set new2. refs_ge (length h1) ob" by blast
    have le: "length h \<le> length h1" by (simp add: n1)
    from n2 le have "\<forall>v \<in> set vs2. val_ge (length h) v" "\<forall>ob \<in> set new2. refs_ge (length h) ob"
      by (auto intro: val_ge_mono refs_ge_mono)
    moreover from a a1 a2 have "vs = v # vs2" "h' = h @ (new1 @ new2)" by (auto simp: n1 n2)
    ultimately show "\<exists>new. h' = h @ new \<and> (\<forall>v \<in> set vs. val_ge (length h) v)
          \<and> (\<forall>ob \<in> set new. refs_ge (length h) ob)"
      using n1 by (intro exI [of _ "new1 @ new2"]) auto
  qed
next
  case (10 kv kvs h)
  show ?case
  proof (intro allI impI)
    fix es h' assume a: "alloc_items (kv # kvs) h = (es, h')"
    obtain v h1 where a1: "alloc (snd kv) h = (v, h1)" by (cases "alloc (snd kv) h")
    obtain es2 h2 where a2: "alloc_items kvs h1 = (es2, h2)" by (cases "alloc_items kvs h1")
    from 10(1) a1 obtain new1 where n1: "h1 = h @ new1" "val_ge (length h) v"
      "\<forall>ob \<in> set new1. refs_ge (length h) ob" by blast
    from 10(2) [OF a1 [symmetric]] a2 obtain new2 where n2: "h2 = h1 @ new2"
      "\<forall>kv \<in> set es2. val_ge (length h1) (snd kv)" "\<forall>ob \<in> set new2. refs_ge (length h1) ob" by blast
    have le: "length h \<le> length h1" by (simp add: n1)
    from n2 le have "\<forall>kv \<in> set es2. val_ge (length h) (snd kv)" "\<forall>ob \<in> set new2. refs_ge (length h) ob"
      by (auto intro: val_ge_mono refs_ge_mono)
    moreover from a a1 a2 have "es = (fst kv, v) # es2" "h' = h @ (new1 @ new2)" by (auto simp: n1 n2)
    ultimately show "\<exists>new. h' = h @ new \<and> (\<forall>kv \<in> set es. val_ge (length h) (snd kv))
          \<and> (\<forall>ob \<in> set new. refs_ge (length h) ob)"
      using n1 by (intro exI [of _ "new1 @ new2"]) auto
  qed
qed (simp_all add: val_ge_def)

lemma alloc_refs:
  "alloc t h = (v, h') \<Longrightarrow>
     \<exists>new. h' = h @ new \<and> val_ge (length h) v \<and> (\<forall>ob \<in> set new. refs_ge (length h) ob)"
  using alloc_refs_aux(1) [of t h] by blast

lemma frame_upto_refl: "frame_upto K step h h"
  by (simp add: frame_upto_def)

lemma frame_upto_trans:
  assumes "frame_upto K step h h1" "frame_upto K step h1 h2"
  shows "frame_upto K step h h2"
proof -
  from assms have "length h \<le> length h1" "length h1 \<le> length h2" by (auto simp: frame_upto_def)
  moreover have "h2 ! a = h ! a" if "a < length h" "step \<noteq> PRef a" for a
  proof -
    from that assms(1) have "h1 ! a = h ! a" "a < length h1" by (auto simp: frame_upto_def)
    with that assms(2) show ?thesis by (auto simp: frame_upto_def)
  qed
  moreover have "closed_from L h2" if "L \<le> K" "closed_from L h" for L
    using that assms by (auto simp: frame_upto_def)
  ultimately show ?thesis by (auto simp: frame_upto_def)
qed

lemma closed_from_append_entries:
  assumes "closed_from L h" "\<forall>es. ODict es \<in> set new \<longrightarrow> entries_ge L es"
  shows "closed_from L (h @ new)"
  unfolding closed_from_def
proof (intro allI impI)
  fix a es assume a: "L \<le> a" "a < length (h @ new)" "(h @ new) ! a = ODict es"
  show "entries_ge L es"
  proof (cases "a < length h")
    case True
    with a assms(1) show ?thesis by (simp add: closed_from_def nth_append)
  next
    case False
    with a have "new ! (a - length h) = ODict es" "a - length h < length new"
      by (auto simp: nth_append)
    then have "ODict es \<in> set new" by (metis nth_mem)
    with assms(2) show ?thesis by blast
  qed
qed

lemma closed_from_append:
  assumes "closed_from L h" "L \<le> length h" "\<forall>ob \<in> set new. refs_ge (length h) ob"
  shows "closed_from L (h @ new)"
  using assms by (intro closed_from_append_entries) (auto intro: refs_ge_entries)

lemma frame_upto_append:
  "\<forall>ob \<in> set new. refs_ge (length h) ob \<Longrightarrow> K \<le> length h \<Longrightarrow> frame_upto K step h (h @ new)"
  by (auto simp: frame_upto_def nth_append intro: closed_from_append)

lemma closed_from_fresh:
  assumes "\<forall>ob \<in> set new. refs_ge (length h) ob"
  shows "closed_from (length h) (h @ new)"
proof -
  have "closed_from (length h) h" by (simp add: closed_from_def)
  then show ?thesis using assms by (intro closed_from_append) auto
qed

lemma in_set_update: "kv \<in> set (AList.update k v al) \<Longrightarrow> kv = (k, v) \<or> kv \<in> set al"
  by (induction al) (auto split: if_splits)

lemma entries_ge_update:
  "entries_ge L es \<Longrightarrow> (k \<noteq> KStr ''testcase_def'' \<longrightarrow> val_ge L x) \<Longrightarrow>
   entries_ge L (AList.update k x es)"
  unfolding entries_ge_def by (auto dest!: in_set_update)

lemma entries_ge_butlast: "entries_ge L es \<Longrightarrow> entries_ge L (butlast es)"
  unfolding entries_ge_def by (auto dest: in_set_butlastD)

lemma entries_ge_dict_update:
  "entries_ge L c \<Longrightarrow> entries_ge L b \<Longrightarrow> entries_ge L (dict_update c b)"
  unfolding dict_update_def
proof (induction b arbitrary: c)
  case Nil
  then show ?case by simp
next
  case (Cons kv b)
  obtain k v where kv: "kv = (k, v)" by (cases kv)
  from Cons.prems(2) have "k \<noteq> KStr ''testcase_def'' \<longrightarrow> val_ge L v" "entries_ge L b"
    by (auto simp: entries_ge_def kv)
  with Cons.prems(1) have "entries_ge L (AList.update k v c)" "entries_ge L b"
    by (auto intro: entries_ge_update)
  from Cons.IH [OF this] show ?case by (simp add: kv)
qed

lemma entries_ge_mono: "entries_ge L es \<Longrightarrow> K \<le> L \<Longrightarrow> entries_ge K es"
  unfolding entries_ge_def by (auto intro: val_ge_mono)

lemma closed_from_update:
  assumes "closed_from L h" "L \<le> a \<longrightarrow> entries_ge L es"
  shows "closed_from L (h[a := ODict es])"
  unfolding closed_from_def
proof (intro allI impI)
  fix b es' assume b: "L \<le> b" "b < length (h[a := ODict es])" "h[a := ODict es] ! b = ODict es'"
  show "entries_ge L es'"
  proof (cases "b = a")
    case True
    with b assms(2) show ?thesis by simp
  next
    case False
    with b assms(1) show ?thesis by (simp add: closed_from_def)
  qed
qed

lemma frame_upto_setitem:
  assumes "a < length h" "h ! a = ODict es" "name \<noteq> ''testcase_def'' \<longrightarrow> val_ge K x"
  shows "frame_upto K (PRef a) h (h[a := ODict (AList.update (KStr name) x es)])"
proof -
  have "closed_from L (h[a := ODict (AList.update (KStr name) x es)])"
    if "L \<le> K" "closed_from L h" for L
  proof (rule closed_from_update [OF that(2)], rule impI)
    assume "L \<le> a"
    with that(2) assms have "entries_ge L es" by (simp add: closed_from_def)
    moreover from assms(3) that(1) have "KStr name \<noteq> KStr ''testcase_def'' \<longrightarrow> val_ge L x"
      by (auto intro: val_ge_mono)
    ultimately show "entries_ge L (AList.update (KStr name) x es)" by (rule entries_ge_update)
  qed
  then show ?thesis by (simp add: frame_upto_def)
qed

lemma attach_cases:
  assumes "attach step name x s = (r, s')"
  shows "(s' = s \<and> r = Inl TypeError)
     \<or> (\<exists>a es. step = PRef a \<and> a < length (heap s) \<and> heap s ! a = ODict es \<and> r = Inr step
          \<and> s' = s\<lparr>heap := (heap s)[a := ODict (AList.update (KStr name) x es)]\<rparr>)"
  using assms
  by (auto simp: attach_def setitem_str_def get_dict_def
      split: pval.splits option.splits if_splits obj.splits)

lemma attach_frame:
  assumes "attach step name x s = (r, s')" "name \<noteq> ''testcase_def'' \<longrightarrow> val_ge K x"
  shows "frame_upto K step (heap s) (heap s')"
  using attach_cases [OF assms(1)] assms(2)
  by (auto simp: frame_upto_refl intro: frame_upto_setitem)

lemma attach_content:
  assumes "attach step name x s = (r, s')" "get_dict (heap s) step = Some es"
  shows "r = Inr step \<and> get_dict (heap s') step = Some (AList.update (KStr name) x es)"
  using assms
  by (auto simp: attach_def setitem_str_def get_dict_def
      split: pval.splits option.splits if_splits obj.splits)

lemma attach_result: "attach step name x s = (Inr v, s') \<Longrightarrow> v = step"
  by (auto simp: attach_def split: sum.splits)

lemma store_value_heap:
  assumes "store_value content s = (r, s1)"
  shows "\<exists>new v. heap s1 = heap s @ new \<and> r = Inr v \<and> val_ge (length (heap s)) v
      \<and> (\<forall>ob \<in> set new. refs_ge (length (heap s)) ob)"
proof -
  obtain v h' where al: "alloc content (heap s) = (v, h')" by (cases "alloc content (heap s)")
  from alloc_refs [OF al] obtain new where "h' = heap s @ new" "val_ge (length (heap s)) v"
    "\<forall>ob \<in> set new. refs_ge (length (heap s)) ob" by blast
  with assms al show ?thesis by (auto simp: store_value_def)
qed

lemma get_api_definition_heap:
  assumes "get_api_definition name s = (r, s1)"
  shows "\<exists>new. heap s1 = heap s @ new \<and> (\<forall>ob \<in> set new. refs_ge (length (heap s)) ob)
      \<and> (\<forall>v. r = Inr v \<longrightarrow> val_ge (length (heap s)) v)"
proof (cases "\<exists>content. store_value content s = (r, s1)")
  case True
  then obtain content where "store_value content s = (r, s1)" by blast
  from store_value_heap [OF this] show ?thesis by auto
next
  case False
  with assms have "s1 = s \<and> (\<exists>e. r = Inl e)"
    by (auto simp: get_api_definition_def deepcopy_dict_def split: option.splits)
  then show ?thesis by auto
qed

lemma load_file_heap:
  assumes "load_file w p s = (r, s1)"
  shows "\<exists>new. heap s1 = heap s @ new \<and> (\<forall>ob \<in> set new. refs_ge (length (heap s)) ob)
      \<and> (\<forall>v. r = Inr v \<longrightarrow> val_ge (length (heap s)) v)"
proof (cases "\<exists>content s0. heap s0 = heap s \<and> store_value content s0 = (r, s1)")
  case True
  then obtain content s0 where "heap s0 = heap s" "store_value content s0 = (r, s1)" by blast
  with store_value_heap [OF this(2)] show ?thesis by auto
next
  case False
  then have nf: "\<And>content s0. heap s0 = heap s \<Longrightarrow> store_value content s0 \<noteq> (r, s1)" by blast
  have hs: "heap (opened p s) = heap s" "\<And>m. heap (log_msg m s) = heap s"
    "\<And>m. heap (log_msg m (opened p s)) = heap s"
    by (simp_all add: opened_def log_msg_def)
  from assms have "heap s1 = heap s \<and> (\<exists>e. r = Inl e)"
    using nf [OF hs(1)] nf [OF hs(2)] nf [OF hs(3)]
    by (auto simp: load_file_def Let_def load_json_file_def load_yaml_file_def load_csv_file_def
        check_format_def opened_def log_msg_def
        split: if_splits option.splits prod.splits sum.splits)
  then show ?thesis by auto
qed

lemma load_teststep_cases:
  assumes "load_teststep n w step s = Some (r, s')"
  shows "(s' = s \<and> (\<forall>v. r = Inr v \<longrightarrow> v = step))
    \<or> (\<exists>name v s1. get_api_definition name s = (Inr v, s1) \<and> attach step ''api_def'' v s1 = (r, s'))
    \<or> (\<exists>name e. get_api_definition name s = (Inl e, s') \<and> r = Inl e)
    \<or> (\<exists>x. attach step ''testcase_def'' x s = (r, s'))
    \<or> (\<exists>p e. load_file w p s = (Inl e, s') \<and> r = Inl e)
    \<or> (\<exists>p raw s1 m e. load_file w p s = (Inr raw, s1) \<and> n = Suc m
          \<and> load_testcase m w raw s1 = Some (Inl e, s') \<and> r = Inl e)
    \<or> (\<exists>p raw s1 m tc s2 tdm. load_file w p s = (Inr raw, s1) \<and> n = Suc m
          \<and> load_testcase m w raw s1 = Some (Inr tc, s2)
          \<and> attach step ''testcase_def'' tc (s2\<lparr>tests_def_mapping := tdm\<rparr>) = (r, s'))"
  using assms
  by (auto simp: load_teststep.simps
      split: sum.splits if_splits option.splits prod.splits pval.splits nat.splits)

lemma py_iter_fresh:
  assumes "val_ge (length h) v" "\<forall>ob \<in> set new. refs_ge (length h) ob"
    "py_iter (h @ new) v = Inr items"
  shows "\<forall>x \<in> set items. val_ge (length h) x"
proof (cases v)
  case (PStr x)
  with assms(3) show ?thesis by (auto simp: py_iter_def val_ge_def)
next
  case (PRef a)
  with assms(1) have ge: "length h \<le> a" by (simp add: val_ge_def)
  from assms(3) PRef have lt: "a < length (h @ new)"
    by (auto simp: py_iter_def split: if_splits)
  with ge have "(h @ new) ! a \<in> set new" by (auto simp: nth_append)
  with assms(2) have r: "refs_ge (length h) ((h @ new) ! a)" by blast
  show ?thesis
  proof (cases "(h @ new) ! a")
    case (ODict es)
    with assms(3) PRef lt have "items = map (\<lambda>kv. of_key (fst kv)) es" by (simp add: py_iter_def)
    moreover have "val_ge (length h) (of_key k)" for k by (cases k) (simp_all add: val_ge_def)
    ultimately show ?thesis by auto
  next
    case (OList vs)
    with assms(3) PRef lt have "items = vs" by (simp add: py_iter_def)
    with r OList show ?thesis by (simp add: refs_ge_def)
  qed
qed (use assms(3) in \<open>simp_all add: py_iter_def\<close>)

lemma load_blocks_frame:
  assumes ts: "\<And>step s r s'. load_teststep n w step s = Some (r, s') \<Longrightarrow>
      frame_upto (length (heap s)) step (heap s) (heap s')"
  shows "load_blocks n w items config teststeps s = Some (r, s') \<Longrightarrow> L \<le> length (heap s) \<Longrightarrow>
    closed_from L (heap s) \<Longrightarrow> \<forall>v \<in> set items. val_ge L v \<Longrightarrow> entries_ge L config \<Longrightarrow>
    length (heap s) \<le> length (heap s') \<and> (\<forall>a < L. heap s' ! a = heap s ! a)
      \<and> closed_from L (heap s') \<and> (\<forall>c t. r = Inr (c, t) \<longrightarrow> entries_ge L c)"
proof (induction items arbitrary: config teststeps s)
  case Nil
  then show ?case by auto
next
  case (Cons item items)
  note run = Cons.prems(1)
  show ?case
  proof (cases "get_dict (heap s) item")
    case None
    with run show ?thesis using Cons.prems by auto
  next
    case (Some pairs)
    show ?thesis
    proof (cases "length pairs = 1")
      case False
      with Some run show ?thesis using Cons.prems by auto
    next
      case True
      then obtain k tb where pairs: "pairs = [(k, tb)]"
        by (cases pairs) (auto simp: length_Suc_conv)
      from Some obtain i where i: "item = PRef i" "i < length (heap s)" "heap s ! i = ODict pairs"
        by (auto dest: get_dict_SomeD)
      from Cons.prems(4) i have Li: "L \<le> i" by (simp add: val_ge_def)
      with Cons.prems(3) i have "entries_ge L pairs" by (auto simp: closed_from_def)
      then have tb: "k \<noteq> KStr ''testcase_def'' \<longrightarrow> val_ge L tb"
        by (simp add: entries_ge_def pairs)
      let ?h1 = "(heap s)[i := ODict []]"
      let ?s1 = "s\<lparr>heap := ?h1\<rparr>"
      have pop: "popitem item (heap s) = Inr ((k, tb), ?h1)"
        using Some i pairs by (simp add: popitem_def)
      have len1: "length ?h1 = length (heap s)" by simp
      have below1: "\<forall>a < L. ?h1 ! a = heap s ! a" using Li by simp
      have closed1: "closed_from L ?h1"
        by (rule closed_from_update [OF Cons.prems(3)]) (simp add: entries_ge_def)
      have rest: "\<forall>v \<in> set items. val_ge L v" using Cons.prems(4) by simp
      show ?thesis
      proof (cases "get_dict ?h1 tb")
        case None
        with run Some True pop have "s' = ?s1" "r = Inl FileFormatError" by auto
        with below1 closed1 show ?thesis by simp
      next
        case block: (Some block)
        consider (config) "k = KStr ''config''" | (test) "k = KStr ''test''"
          | (other) "k \<noteq> KStr ''config''" "k \<noteq> KStr ''test''" by blast
        then show ?thesis
        proof cases
          case config
          with tb have "val_ge L tb" by simp
          moreover from block obtain b where b: "tb = PRef b" "b < length ?h1" "?h1 ! b = ODict block"
            by (auto dest: get_dict_SomeD)
          ultimately have "entries_ge L block" using closed1 by (auto simp: closed_from_def val_ge_def)
          with Cons.prems(5) have cfg: "entries_ge L (dict_update config block)"
            by (rule entries_ge_dict_update)
          from run Some True pop block config
          have "load_blocks n w items (dict_update config block) teststeps ?s1 = Some (r, s')"
            by simp
          from Cons.IH [OF this _ _ rest cfg] Cons.prems(2) closed1 below1
          show ?thesis by auto
        next
          case test
          with tb have vtb: "val_ge L tb" by simp
          show ?thesis
          proof (cases "load_teststep n w tb ?s1")
            case None
            with run Some True pop block test show ?thesis by simp
          next
            case (Some res)
            obtain r1 s2 where res: "res = (r1, s2)" by (cases res)
            from ts [OF Some [unfolded res]]
            have fr: "frame_upto (length ?h1) tb ?h1 (heap s2)" by simp
            then have len2: "length (heap s) \<le> length (heap s2)"
              and closed2: "closed_from L (heap s2)"
              using closed1 Cons.prems(2) by (auto simp: frame_upto_def)
            have below2: "\<forall>a < L. heap s2 ! a = heap s ! a"
            proof (intro allI impI)
              fix a assume a: "a < L"
              with vtb have "tb \<noteq> PRef a" by (auto simp: val_ge_def)
              moreover from a Cons.prems(2) have "a < length ?h1" by simp
              ultimately have "heap s2 ! a = ?h1 ! a" using fr by (auto simp: frame_upto_def)
              with below1 a show "heap s2 ! a = heap s ! a" by simp
            qed
            show ?thesis
            proof (cases r1)
              case (Inl e)
              with run \<open>get_dict (heap s) item = Some pairs\<close> True pop block test Some res
              have "s' = s2" "r = Inl e" by auto
              with len2 closed2 below2 show ?thesis by simp
            next
              case (Inr teststep)
              with run \<open>get_dict (heap s) item = Some pairs\<close> True pop block test Some res
              have "load_blocks n w items config (teststeps @ [teststep]) s2 = Some (r, s')"
                by simp
              from Cons.IH [OF this _ closed2 rest Cons.prems(5)] Cons.prems(2) len2 below2
              show ?thesis by auto
            qed
          qed
        next
          case other
          let ?s2 = "log_msg (Warn_unexpected_block_key k) ?s1"
          have h2: "heap ?s2 = ?h1" by (simp add: log_msg_def)
          from run Some True pop block other
          have "load_blocks n w items config teststeps ?s2 = Some (r, s')" by simp
          from Cons.IH [OF this _ _ rest Cons.prems(5)] Cons.prems(2) closed1 below1 h2
          show ?thesis by auto
        qed
      qed
    qed
  qed
qed

lemma load_testcase_frame:
  assumes ts: "\<And>step s r s'. load_teststep n w step s = Some (r, s') \<Longrightarrow>
      frame_upto (length (heap s)) step (heap s) (heap s')"
    and run: "load_testcase n w raw s = Some (r, s')"
    and L: "L \<le> length (heap s)" "closed_from L (heap s)"
    and items: "\<forall>items. py_iter (heap s) raw = Inr items \<longrightarrow> (\<forall>v \<in> set items. val_ge L v)"
  shows "length (heap s) \<le> length (heap s') \<and> (\<forall>a < L. heap s' ! a = heap s ! a)
      \<and> closed_from L (heap s')"
proof (cases "py_iter (heap s) raw")
  case (Inl e)
  with run have "s' = s" by (simp add: load_testcase.simps)
  with L show ?thesis by simp
next
  case (Inr its)
  with items have its: "\<forall>v \<in> set its. val_ge L v" by simp
  show ?thesis
  proof (cases "load_blocks n w its [] [] s")
    case None
    with run Inr show ?thesis by (simp add: load_testcase.simps)
  next
    case (Some res)
    obtain r1 s1 where res: "res = (r1, s1)" by (cases res)
    have e0: "entries_ge L []" by (simp add: entries_ge_def)
    from load_blocks_frame [OF ts Some [unfolded res] L its e0]
    have f1: "length (heap s) \<le> length (heap s1)" "\<forall>a < L. heap s1 ! a = heap s ! a"
      "closed_from L (heap s1)" "\<forall>c t. r1 = Inr (c, t) \<longrightarrow> entries_ge L c" by auto
    show ?thesis
    proof (cases r1)
      case (Inl e)
      with run Inr Some res have "s' = s1" by (simp add: load_testcase.simps)
      with f1 show ?thesis by simp
    next
      case r1: (Inr ct)
      obtain c t where ct: "ct = (c, t)" by (cases ct)
      let ?new = "[ODict c, OList t,
        ODict [(KStr ''config'', PRef (length (heap s1))), (KStr ''teststeps'', PRef (Suc (length (heap s1))))]]"
      from run Inr Some res r1 ct have s': "heap s' = heap s1 @ ?new"
        by (auto simp: load_testcase.simps new_obj_def)
      from f1(4) r1 ct have "entries_ge L c" by simp
      moreover have "entries_ge L [(KStr ''config'', PRef (length (heap s1))),
          (KStr ''teststeps'', PRef (Suc (length (heap s1))))]"
        using L(1) f1(1) by (simp add: entries_ge_def val_ge_def)
      ultimately have "closed_from L (heap s1 @ ?new)"
        by (intro closed_from_append_entries [OF f1(3)]) auto
      moreover have "\<forall>a < L. (heap s1 @ ?new) ! a = heap s ! a"
        using f1(1,2) L(1) by (simp add: nth_append)
      ultimately show ?thesis using f1(1) by (simp add: s')
    qed
  qed
qed

lemma nested_frame:
  assumes "heap s1 = heap s @ new" "length (heap s1) \<le> length (heap s2)"
    "\<forall>a < length (heap s). heap s2 ! a = heap s1 ! a" "closed_from (length (heap s)) (heap s2)"
  shows "frame_upto (length (heap s)) step (heap s) (heap s2)"
proof -
  have below: "heap s2 ! a = heap s ! a" if "a < length (heap s)" for a
    using that assms(1,3) by (simp add: nth_append)
  have "closed_from L (heap s2)" if "L \<le> length (heap s)" "closed_from L (heap s)" for L
    unfolding closed_from_def
  proof (intro allI impI)
    fix a es assume a: "L \<le> a" "a < length (heap s2)" "heap s2 ! a = ODict es"
    show "entries_ge L es"
    proof (cases "a < length (heap s)")
      case True
      with a below that(2) show ?thesis by (simp add: closed_from_def)
    next
      case False
      with a assms(4) have "entries_ge (length (heap s)) es"
        unfolding closed_from_def by (meson not_less)
      then show ?thesis using that(1) by (rule entries_ge_mono)
    qed
  qed
  moreover from assms(1,2) have "length (heap s) \<le> length (heap s2)" by simp
  ultimately show ?thesis using below by (simp add: frame_upto_def)
qed

lemma load_teststep_frame_step:
  assumes tc: "\<And>m raw s1 r s2 L. n = Suc m \<Longrightarrow> load_testcase m w raw s1 = Some (r, s2) \<Longrightarrow>
      L \<le> length (heap s1) \<Longrightarrow> closed_from L (heap s1) \<Longrightarrow>
      \<forall>items. py_iter (heap s1) raw = Inr items \<longrightarrow> (\<forall>v \<in> set items. val_ge L v) \<Longrightarrow>
      length (heap s1) \<le> length (heap s2) \<and> (\<forall>a < L. heap s2 ! a = heap s1 ! a)
        \<and> closed_from L (heap s2)"
    and run: "load_teststep n w step s = Some (r, s')"
  shows "frame_upto (length (heap s)) step (heap s) (heap s')"
proof -
  let ?K = "length (heap s)"
  have nested: "frame_upto ?K step (heap s) (heap s2)"
    if lf: "load_file w p s = (Inr raw, s1)" and n: "n = Suc m"
      and lt: "load_testcase m w raw s1 = Some (r2, s2)" for p raw s1 m r2 s2
  proof -
    from load_file_heap [OF lf] obtain new where new: "heap s1 = heap s @ new"
      "\<forall>ob \<in> set new. refs_ge ?K ob" "val_ge ?K raw" by auto
    have c1: "closed_from ?K (heap s1)" unfolding new(1) by (rule closed_from_fresh [OF new(2)])
    have it: "\<forall>items. py_iter (heap s1) raw = Inr items \<longrightarrow> (\<forall>v \<in> set items. val_ge ?K v)"
      unfolding new(1) using py_iter_fresh [OF new(3) new(2)] by blast
    have "?K \<le> length (heap s1)" by (simp add: new(1))
    from tc [OF n lt this c1 it] show ?thesis by (intro nested_frame [OF new(1)]) auto
  qed
  from load_teststep_cases [OF run] show ?thesis
  proof (elim disjE exE conjE)
    assume "s' = s"
    then show ?thesis by (simp add: frame_upto_refl)
  next
    fix name v s1
    assume g: "get_api_definition name s = (Inr v, s1)" and a: "attach step ''api_def'' v s1 = (r, s')"
    from get_api_definition_heap [OF g] obtain new where new: "heap s1 = heap s @ new"
      "\<forall>ob \<in> set new. refs_ge ?K ob" "val_ge ?K v" by auto
    have "frame_upto ?K step (heap s) (heap s1)" unfolding new(1)
      by (rule frame_upto_append [OF new(2)]) simp
    moreover have "frame_upto ?K step (heap s1) (heap s')"
      by (rule attach_frame [OF a]) (simp add: new(3))
    ultimately show ?thesis by (rule frame_upto_trans)
  next
    fix name e
    assume g: "get_api_definition name s = (Inl e, s')"
    from get_api_definition_heap [OF g] obtain new where new: "heap s' = heap s @ new"
      "\<forall>ob \<in> set new. refs_ge ?K ob" by auto
    show ?thesis unfolding new(1) by (rule frame_upto_append [OF new(2)]) simp
  next
    fix x
    assume a: "attach step ''testcase_def'' x s = (r, s')"
    show ?thesis by (rule attach_frame [OF a]) simp
  next
    fix p e
    assume lf: "load_file w p s = (Inl e, s')"
    from load_file_heap [OF lf] obtain new where new: "heap s' = heap s @ new"
      "\<forall>ob \<in> set new. refs_ge ?K ob" by auto
    show ?thesis unfolding new(1) by (rule frame_upto_append [OF new(2)]) simp
  next
    fix p raw s1 m e
    assume "load_file w p s = (Inr raw, s1)" "n = Suc m" "load_testcase m w raw s1 = Some (Inl e, s')"
    then show ?thesis by (rule nested)
  next
    fix p raw s1 m tc s2 tdm
    assume lf: "load_file w p s = (Inr raw, s1)" "n = Suc m" "load_testcase m w raw s1 = Some (Inr tc, s2)"
      and a: "attach step ''testcase_def'' tc (s2\<lparr>tests_def_mapping := tdm\<rparr>) = (r, s')"
    from lf have "frame_upto ?K step (heap s) (heap s2)" by (rule nested)
    moreover have "frame_upto ?K step (heap s2) (heap s')"
      using attach_frame [OF a, of ?K] by simp
    ultimately show ?thesis by (rule frame_upto_trans)
  qed
qed

lemma load_teststep_frame:
  "load_teststep n w step s = Some (r, s') \<Longrightarrow>
   frame_upto (length (heap s)) step (heap s) (heap s')"
proof (induction n arbitrary: step s r s')
  case 0
  show ?case by (rule load_teststep_frame_step [OF _ 0]) simp
next
  case (Suc n)
  show ?case
  proof (rule load_teststep_frame_step [OF _ Suc.prems])
    fix m raw s1 r s2 L
    assume "Suc n = Suc m" and run: "load_testcase m w raw s1 = Some (r, s2)"
      and L: "L \<le> length (heap s1)" "closed_from L (heap s1)"
        "\<forall>items. py_iter (heap s1) raw = Inr items \<longrightarrow> (\<forall>v \<in> set items. val_ge L v)"
    then have m: "m = n" by simp
    show "length (heap s1) \<le> length (heap s2) \<and> (\<forall>a < L. heap s2 ! a = heap s1 ! a)
        \<and> closed_from L (heap s2)"
      by (rule load_testcase_frame [OF Suc.IH run [unfolded m] L])
  qed
qed

lemma load_teststep_empty:
  "get_dict (heap s) step = Some [] \<Longrightarrow> load_teststep n w step s = Some (Inr step, s)"
  by (simp add: load_teststep.simps contains_str_dict)

lemma load_teststep_keeps_empty:
  assumes "load_teststep n w step s = Some (r, s')" "a < length (heap s)" "heap s ! a = ODict []"
  shows "heap s' ! a = ODict [] \<and> length (heap s) \<le> length (heap s')"
proof (cases "step = PRef a")
  case True
  with assms(2,3) have "get_dict (heap s) step = Some []" by (simp add: get_dict_def)
  from load_teststep_empty [OF this, of n w] assms show ?thesis by simp
next
  case False
  with load_teststep_frame [OF assms(1)] assms(2,3) show ?thesis
    by (auto simp: frame_upto_def)
qed

lemma load_teststep_grows:
  "load_teststep n w step s = Some (r, s') \<Longrightarrow> length (heap s) \<le> length (heap s')"
  using load_teststep_frame by (auto simp: frame_upto_def)

lemma load_blocks_keeps_empty:
  "load_blocks n w items config teststeps s = Some (r, s') \<Longrightarrow>
   length (heap s) \<le> length (heap s')
   \<and> (\<forall>a < length (heap s). heap s ! a = ODict [] \<longrightarrow> heap s' ! a = ODict [])"
proof (induction items arbitrary: config teststeps s)
  case Nil
  then show ?case by simp
next
  case (Cons item items)
  note run = Cons.prems
  show ?case
  proof (cases "get_dict (heap s) item")
    case None
    with run show ?thesis by simp
  next
    case (Some pairs)
    show ?thesis
    proof (cases "length pairs = 1")
      case False
      with Some run show ?thesis by simp
    next
      case True
      then obtain k tb where pairs: "pairs = [(k, tb)]"
        by (cases pairs) (auto simp: length_Suc_conv)
      from Some obtain i where i: "item = PRef i" "i < length (heap s)" "heap s ! i = ODict pairs"
        by (auto dest: get_dict_SomeD)
      let ?h1 = "(heap s)[i := ODict []]"
      let ?s1 = "s\<lparr>heap := ?h1\<rparr>"
      have pop: "popitem item (heap s) = Inr ((k, tb), ?h1)"
        using Some i pairs by (simp add: popitem_def)
      have keep1: "\<forall>a < length (heap s). heap s ! a = ODict [] \<longrightarrow> ?h1 ! a = ODict []"
        by (metis nth_list_update_eq nth_list_update_neq)
      show ?thesis
      proof (cases "get_dict ?h1 tb")
        case None
        with run Some True pop have "s' = ?s1" by auto
        with keep1 show ?thesis by simp
      next
        case block: (Some block)
        consider (config) "k = KStr ''config''" | (test) "k = KStr ''test''"
          | (other) "k \<noteq> KStr ''config''" "k \<noteq> KStr ''test''" by blast
        then show ?thesis
        proof cases
          case config
          with run Some True pop block
          have "load_blocks n w items (dict_update config block) teststeps ?s1 = Some (r, s')"
            by simp
          from Cons.IH [OF this] keep1 show ?thesis by simp
        next
          case test
          show ?thesis
          proof (cases "load_teststep n w tb ?s1")
            case None
            with run Some True pop block test show ?thesis by simp
          next
            case ts: (Some res)
            obtain r1 s2 where res: "res = (r1, s2)" by (cases res)
            have keep2: "length (heap s) \<le> length (heap s2)
                \<and> (\<forall>a < length (heap s). heap s ! a = ODict [] \<longrightarrow> heap s2 ! a = ODict [])"
              using load_teststep_keeps_empty [OF ts [unfolded res]]
                load_teststep_grows [OF ts [unfolded res]] keep1 by simp
            show ?thesis
            proof (cases r1)
              case (Inl e)
              with run Some True pop block test ts res have "s' = s2" by auto
              with keep2 show ?thesis by simp
            next
              case (Inr teststep)
              with run Some True pop block test ts res
              have "load_blocks n w items config (teststeps @ [teststep]) s2 = Some (r, s')"
                by simp
              from Cons.IH [OF this] keep2 show ?thesis
                by (meson le_trans less_le_trans)
            qed
          qed
        next
          case other
          let ?s2 = "log_msg (Warn_unexpected_block_key k) ?s1"
          have h2: "heap ?s2 = ?h1" by (simp add: log_msg_def)
          from run Some True pop block other
          have "load_blocks n w items config teststeps ?s2 = Some (r, s')" by simp
          from Cons.IH [OF this] keep1 h2 show ?thesis by simp
        qed
      qed
    qed
  qed
qed

lemma load_blocks_consumed:
  "load_blocks n w items config teststeps s = Some (Inr res, s') \<Longrightarrow>
   \<forall>item \<in> set items. get_dict (heap s') item = Some []"
proof (induction items arbitrary: config teststeps s)
  case Nil
  then show ?case by simp
next
  case (Cons item items)
  note run = Cons.prems
  from run obtain pairs where Some: "get_dict (heap s) item = Some pairs"
    by (cases "get_dict (heap s) item") auto
  with run have True: "length pairs = 1" by (auto split: if_splits)
  then obtain k tb where pairs: "pairs = [(k, tb)]"
    by (cases pairs) (auto simp: length_Suc_conv)
  from Some obtain i where i: "item = PRef i" "i < length (heap s)" "heap s ! i = ODict pairs"
    by (auto dest: get_dict_SomeD)
  let ?h1 = "(heap s)[i := ODict []]"
  let ?s1 = "s\<lparr>heap := ?h1\<rparr>"
  have pop: "popitem item (heap s) = Inr ((k, tb), ?h1)"
    using Some i pairs by (simp add: popitem_def)
  have e1: "i < length ?h1" "?h1 ! i = ODict []" using i by simp_all
  from run Some True pop obtain block where block: "get_dict ?h1 tb = Some block"
    by (cases "get_dict ?h1 tb") auto
  have "\<exists>c t s2. load_blocks n w items c t s2 = Some (Inr res, s')
      \<and> i < length (heap s2) \<and> heap s2 ! i = ODict []"
  proof -
    consider (config) "k = KStr ''config''" | (test) "k = KStr ''test''"
      | (other) "k \<noteq> KStr ''config''" "k \<noteq> KStr ''test''" by blast
    then show ?thesis
    proof cases
      case config
      with run Some True pop block
      have "load_blocks n w items (dict_update config block) teststeps ?s1 = Some (Inr res, s')"
        by simp
      with e1 show ?thesis by (intro exI [of _ "dict_update config block"] exI [of _ teststeps] exI [of _ ?s1]) simp
    next
      case test
      with run Some True pop block obtain teststep s2
        where ts: "load_teststep n w tb ?s1 = Some (Inr teststep, s2)"
          and rest: "load_blocks n w items config (teststeps @ [teststep]) s2 = Some (Inr res, s')"
        by (auto split: option.splits sum.splits)
      from load_teststep_keeps_empty [OF ts] load_teststep_grows [OF ts] e1
      have "i < length (heap s2) \<and> heap s2 ! i = ODict []" by simp
      with rest show ?thesis by blast
    next
      case other
      let ?s2 = "log_msg (Warn_unexpected_block_key k) ?s1"
      from run Some True pop block other
      have "load_blocks n w items config teststeps ?s2 = Some (Inr res, s')" by simp
      moreover have "heap ?s2 = ?h1" by (simp add: log_msg_def)
      ultimately show ?thesis using e1
        by (intro exI [of _ config] exI [of _ teststeps] exI [of _ ?s2]) simp
    qed
  qed
  then obtain c t s2 where rest: "load_blocks n w items c t s2 = Some (Inr res, s')"
    and e2: "i < length (heap s2)" "heap s2 ! i = ODict []" by blast
  from load_blocks_keeps_empty [OF rest] e2 have "i < length (heap s')" "heap s' ! i = ODict []"
    by auto
  then have "get_dict (heap s') item = Some []" by (simp add: get_dict_def i(1))
  with Cons.IH [OF rest] show ?case by simp
qed

lemma load_testcase_consumed:
  assumes "load_testcase n w raw_testcase s = Some (Inr testcase, s')"
    "py_iter (heap s) raw_testcase = Inr items"
  shows "\<forall>item \<in> set items. get_dict (heap s') item = Some []"
proof -
  from assms obtain config teststeps s1 where lb: "load_blocks n w items [] [] s = Some (Inr (config, teststeps), s1)"
    and s': "heap s' = heap s1 @ [ODict config, OList teststeps,
        ODict [(KStr ''config'', PRef (length (heap s1))), (KStr ''teststeps'', PRef (Suc (length (heap s1))))]]"
    by (auto simp: load_testcase.simps new_obj_def split: option.splits sum.splits prod.splits)
  have "get_dict (h @ new) v = Some es" if "get_dict h v = Some es" for h new v es
    using that by (auto simp: get_dict_def nth_append split: pval.splits if_splits)
  with load_blocks_consumed [OF lb] show ?thesis unfolding s' by blast
qed

lemma get_dict_append: "get_dict h v = Some es \<Longrightarrow> get_dict (h @ new) v = Some es"
  by (auto simp: get_dict_def nth_append split: pval.splits if_splits)

lemma nested_below:
  assumes lf: "load_file w p s = (Inr raw, s1)" and lt: "load_testcase m w raw s1 = Some (r2, s2)"
  shows "length (heap s) \<le> length (heap s2) \<and> (\<forall>a < length (heap s). heap s2 ! a = heap s ! a)"
proof -
  let ?K = "length (heap s)"
  from load_file_heap [OF lf] obtain new where new: "heap s1 = heap s @ new"
    "\<forall>ob \<in> set new. refs_ge ?K ob" "val_ge ?K raw" by auto
  have c1: "closed_from ?K (heap s1)" unfolding new(1) by (rule closed_from_fresh [OF new(2)])
  have it: "\<forall>items. py_iter (heap s1) raw = Inr items \<longrightarrow> (\<forall>v \<in> set items. val_ge ?K v)"
    unfolding new(1) using py_iter_fresh [OF new(3) new(2)] by blast
  have "?K \<le> length (heap s1)" by (simp add: new(1))
  have "length (heap s1) \<le> length (heap s2) \<and> (\<forall>a < ?K. heap s2 ! a = heap s1 ! a)
      \<and> closed_from ?K (heap s2)"
  proof (rule load_testcase_frame [OF _ lt \<open>?K \<le> length (heap s1)\<close> c1 it])
    fix step s r s'
    assume "load_teststep m w step s = Some (r, s')"
    then show "frame_upto (length (heap s)) step (heap s) (heap s')"
      by (rule load_teststep_frame)
  qed
  then show ?thesis using new(1) by (auto simp: nth_append)
qed

lemma load_teststep_content:
  assumes run: "load_teststep n w step s = Some (r, s')"
  shows "(\<forall>v. r = Inr v \<longrightarrow> v = step)
    \<and> (\<forall>es. get_dict (heap s) step = Some es \<longrightarrow>
          (\<exists>es'. get_dict (heap s') step = Some es'
             \<and> (\<forall>k. k \<noteq> KStr ''api_def'' \<longrightarrow> k \<noteq> KStr ''testcase_def'' \<longrightarrow>
                   map_of es' k = map_of es k)))"
proof -
  have below: "get_dict h' step = Some es"
    if "get_dict (heap s) step = Some es" "length (heap s) \<le> length h'"
      "\<forall>a < length (heap s). h' ! a = heap s ! a" for h' es
    using that by (auto simp: get_dict_def split: pval.splits if_splits)
  from load_teststep_cases [OF run] show ?thesis
  proof (elim disjE exE conjE)
    assume "s' = s" "\<forall>v. r = Inr v \<longrightarrow> v = step"
    then show ?thesis by simp
  next
    fix name v s1
    assume g: "get_api_definition name s = (Inr v, s1)" and a: "attach step ''api_def'' v s1 = (r, s')"
    from get_api_definition_heap [OF g] obtain new where new: "heap s1 = heap s @ new" by auto
    have "\<exists>es'. get_dict (heap s') step = Some es'
             \<and> (\<forall>k. k \<noteq> KStr ''api_def'' \<longrightarrow> k \<noteq> KStr ''testcase_def'' \<longrightarrow>
                   map_of es' k = map_of es k)" if "get_dict (heap s) step = Some es" for es
    proof -
      from that have "get_dict (heap s1) step = Some es" unfolding new by (rule get_dict_append)
      from attach_content [OF a this] show ?thesis by (simp add: update_conv')
    qed
    moreover have "\<forall>v. r = Inr v \<longrightarrow> v = step" using a by (auto dest: attach_result)
    ultimately show ?thesis by blast
  next
    fix name e
    assume g: "get_api_definition name s = (Inl e, s')" and r: "r = Inl e"
    from get_api_definition_heap [OF g] obtain new where new: "heap s' = heap s @ new" by auto
    have "get_dict (heap s @ new) step = Some es" if "get_dict (heap s) step = Some es" for es
      using that by (rule get_dict_append)
    then show ?thesis using r unfolding new by blast
  next
    fix x
    assume a: "attach step ''testcase_def'' x s = (r, s')"
    have "\<forall>v. r = Inr v \<longrightarrow> v = step" using a by (auto dest: attach_result)
    moreover have "\<exists>es'. get_dict (heap s') step = Some es'
             \<and> (\<forall>k. k \<noteq> KStr ''api_def'' \<longrightarrow> k \<noteq> KStr ''testcase_def'' \<longrightarrow>
                   map_of es' k = map_of es k)" if "get_dict (heap s) step = Some es" for es
      using attach_content [OF a that] by (simp add: update_conv')
    ultimately show ?thesis by blast
  next
    fix p e
    assume lf: "load_file w p s = (Inl e, s')" and r: "r = Inl e"
    from load_file_heap [OF lf] obtain new where new: "heap s' = heap s @ new" by auto
    have "get_dict (heap s @ new) step = Some es" if "get_dict (heap s) step = Some es" for es
      using that by (rule get_dict_append)
    then show ?thesis using r unfolding new by blast
  next
    fix p raw s1 m e
    assume lf: "load_file w p s = (Inr raw, s1)" and lt: "load_testcase m w raw s1 = Some (Inl e, s')"
      and r: "r = Inl e"
    from nested_below [OF lf lt]
    have "get_dict (heap s') step = Some es" if "get_dict (heap s) step = Some es" for es
      using below [OF that] by blast
    then show ?thesis using r by blast
  next
    fix p raw s1 m tc s2 tdm
    assume lf: "load_file w p s = (Inr raw, s1)" and lt: "load_testcase m w raw s1 = Some (Inr tc, s2)"
      and a: "attach step ''testcase_def'' tc (s2\<lparr>tests_def_mapping := tdm\<rparr>) = (r, s')"
    have "\<exists>es'. get_dict (heap s') step = Some es'
             \<and> (\<forall>k. k \<noteq> KStr ''api_def'' \<longrightarrow> k \<noteq> KStr ''testcase_def'' \<longrightarrow>
                   map_of es' k = map_of es k)" if "get_dict (heap s) step = Some es" for es
    proof -
      from nested_below [OF lf lt] have "get_dict (heap s2) step = Some es"
        using below [OF that] by blast
      then have "get_dict (heap (s2\<lparr>tests_def_mapping := tdm\<rparr>)) step = Some es" by simp
      from attach_content [OF a this] show ?thesis by (simp add: update_conv')
    qed
    moreover have "\<forall>v. r = Inr v \<longrightarrow> v = step" using a by (auto dest: attach_result)
    ultimately show ?thesis by blast
  qed
qed

lemma load_teststep_not_dict:
  assumes "load_teststep n w step s = Some (Inr v, s')" "get_dict (heap s) step = None"
  shows "s' = s"
proof -
  have g: "getitem_str step name (heap s) = Inl TypeError" for name
    using assms(2) by (simp add: getitem_str_def)
  from assms(1) show ?thesis
    by (simp add: load_teststep.simps g split: sum.splits if_splits)
qed

lemma entry_ofD:
  "entry_of h item = Some kv \<Longrightarrow> \<exists>a. item = PRef a \<and> a < length h \<and> h ! a = ODict [kv]"
  by (auto simp: entry_of_def split: option.splits list.splits dest: get_dict_SomeD)

lemma unshared_Cons:
  assumes u: "unshared h (item # items)"
    and len: "length h \<le> length h'"
    and agree: "\<forall>a < length h. PRef a \<noteq> item \<longrightarrow> PRef a \<noteq> block_of h item \<longrightarrow> h' ! a = h ! a"
  shows "unshared h' items"
    and "\<forall>x \<in> set items. entry_of h' x = entry_of h x
            \<and> get_dict h' (block_of h x) = get_dict h (block_of h x)"
proof -
  have same: "get_dict h' v = get_dict h v" if "valid h v" "v \<noteq> item" "v \<noteq> block_of h item" for v
  proof (cases v)
    case (PRef a)
    with that have "a < length h" "h' ! a = h ! a" using agree by (auto simp: valid_def)
    with len PRef show ?thesis by (simp add: get_dict_def)
  qed (simp_all add: get_dict_def)
  have item_facts: "valid h x \<and> x \<noteq> item \<and> x \<noteq> block_of h item
      \<and> valid h (block_of h x) \<and> block_of h x \<noteq> item
      \<and> (is_ref (block_of h x) \<longrightarrow> block_of h x \<noteq> block_of h item)"
    if x: "x \<in> set items" for x
  proof -
    from u x obtain kv where kv: "entry_of h x = Some kv" by (auto simp: unshared_def list_all_iff)
    then obtain a where a: "x = PRef a" "a < length h" by (auto dest: entry_ofD)
    from u have d: "distinct ((item # items) @ filter is_ref (map (block_of h) (item # items)))"
      and v: "list_all (valid h) (map (block_of h) (item # items))"
      by (auto simp: unshared_def)
    from d x have "x \<noteq> item" by auto
    moreover have "x \<noteq> block_of h item"
    proof
      assume e: "x = block_of h item"
      with a have "is_ref (block_of h item)" by (simp add: is_ref_def)
      with e have "x \<in> set (filter is_ref (map (block_of h) (item # items)))" by simp
      with d x show False by auto
    qed
    moreover from v x have "valid h (block_of h x)" by (auto simp: list_all_iff)
    moreover have "block_of h x \<noteq> item"
    proof
      assume e: "block_of h x = item"
      from u obtain kv' where "entry_of h item = Some kv'" by (auto simp: unshared_def)
      then have "is_ref item" by (auto simp: is_ref_def dest: entry_ofD)
      with e x have "item \<in> set (filter is_ref (map (block_of h) (item # items)))" by auto
      with d show False by auto
    qed
    moreover have "block_of h x \<noteq> block_of h item" if "is_ref (block_of h x)"
    proof
      assume e: "block_of h x = block_of h item"
      from d have "distinct (filter is_ref (map (block_of h) (item # items)))" by simp
      moreover have "block_of h x \<in> set (filter is_ref (map (block_of h) items))"
        using that x by simp
      then have "block_of h item \<in> set (filter is_ref (map (block_of h) items))"
        by (simp only: e)
      ultimately show False using that e by simp
    qed
    moreover from a have "valid h x" by (simp add: valid_def)
    ultimately show ?thesis by blast
  qed
  have ent: "entry_of h' x = entry_of h x \<and> get_dict h' (block_of h x) = get_dict h (block_of h x)"
    if x: "x \<in> set items" for x
  proof -
    from item_facts [OF x] have "get_dict h' x = get_dict h x" by (intro same) auto
    then have "entry_of h' x = entry_of h x" by (simp add: entry_of_def)
    moreover have "get_dict h' (block_of h x) = get_dict h (block_of h x)"
    proof (cases "is_ref (block_of h x)")
      case True
      with item_facts [OF x] show ?thesis by (intro same) auto
    next
      case False
      then show ?thesis by (cases "block_of h x") (simp_all add: is_ref_def get_dict_def)
    qed
    ultimately show ?thesis by simp
  qed
  then show "\<forall>x \<in> set items. entry_of h' x = entry_of h x
            \<and> get_dict h' (block_of h x) = get_dict h (block_of h x)" by blast
  from ent have bl: "map (block_of h') items = map (block_of h) items"
    by (simp add: block_of_def)
  have "list_all (\<lambda>item. entry_of h' item \<noteq> None) items"
    using u ent by (auto simp: unshared_def list_all_iff)
  moreover have "list_all (valid h') (map (block_of h) items)"
    using u len by (auto simp: unshared_def list_all_iff valid_def split: pval.splits)
  moreover have "distinct (items @ filter is_ref (map (block_of h) items))"
    using u by (auto simp: unshared_def split: if_splits)
  ultimately show "unshared h' items" by (simp add: unshared_def bl)
qed

lemma map_of_dict_update:
  "map_of (dict_update c b) k = (case map_of (rev b) k of None \<Rightarrow> map_of c k | Some v \<Rightarrow> Some v)"
  unfolding dict_update_def
proof (induction b arbitrary: c)
  case Nil
  then show ?case by simp
next
  case (Cons kv b)
  obtain k' v' where kv: "kv = (k', v')" by (cases kv)
  show ?case
    by (simp add: kv Cons.IH update_conv' map_add_def split: option.splits)
qed

lemma map_of_foldl_dict_update:
  "map_of (foldl dict_update c bs) k
     = (case last_binding k bs of None \<Rightarrow> map_of c k | Some v \<Rightarrow> Some v)"
proof (induction bs arbitrary: c)
  case Nil
  then show ?case by simp
next
  case (Cons b bs)
  show ?case by (simp add: Cons.IH map_of_dict_update split: option.splits)
qed

lemma config_blocks_cong:
  assumes "\<forall>x \<in> set items. entry_of h' x = entry_of h x
            \<and> get_dict h' (block_of h x) = get_dict h (block_of h x)"
  shows "config_blocks h' items = config_blocks h items"
proof -
  have "(case entry_of h' x of None \<Rightarrow> []
       | Some kv \<Rightarrow> if fst kv = KStr ''config''
           then (case get_dict h' (snd kv) of None \<Rightarrow> [] | Some block \<Rightarrow> [block]) else [])
      = (case entry_of h x of None \<Rightarrow> []
       | Some kv \<Rightarrow> if fst kv = KStr ''config''
           then (case get_dict h (snd kv) of None \<Rightarrow> [] | Some block \<Rightarrow> [block]) else [])"
    if "x \<in> set items" for x
    using assms that by (auto simp: block_of_def split: option.splits)
  then show ?thesis unfolding config_blocks_def by (metis (no_types, lifting) map_eq_conv)
qed

lemma unshared_head:
  assumes "unshared h (item # items)"
  obtains i k tb where "item = PRef i" "i < length h" "h ! i = ODict [(k, tb)]"
    "entry_of h item = Some (k, tb)" "block_of h item = tb" "tb \<noteq> item"
proof -
  from assms obtain kv where kv: "entry_of h item = Some kv" by (auto simp: unshared_def)
  obtain k tb where p: "kv = (k, tb)" by (cases kv)
  from kv p obtain i where i: "item = PRef i" "i < length h" "h ! i = ODict [(k, tb)]"
    by (auto dest: entry_ofD)
  have b: "block_of h item = tb" by (simp add: block_of_def kv p)
  have "tb \<noteq> item"
  proof
    assume e: "tb = item"
    with i b have "item \<in> set (filter is_ref (map (block_of h) (item # items)))"
      by (simp add: is_ref_def)
    with assms show False by (auto simp: unshared_def)
  qed
  with i kv p b show ?thesis using that by blast
qed

lemma load_blocks_config:
  "load_blocks n w items config teststeps s = Some (Inr (c, t), s') \<Longrightarrow>
   unshared (heap s) items \<Longrightarrow>
   c = foldl dict_update config (config_blocks (heap s) items)"
proof (induction items arbitrary: config teststeps s)
  case Nil
  then show ?case by (simp add: config_blocks_def)
next
  case (Cons item items)
  note run = Cons.prems(1) and u = Cons.prems(2)
  from u obtain i k tb where i: "item = PRef i" "i < length (heap s)" "heap s ! i = ODict [(k, tb)]"
    and e: "entry_of (heap s) item = Some (k, tb)" and b: "block_of (heap s) item = tb"
    and ne: "tb \<noteq> item" by (rule unshared_head)
  let ?h1 = "(heap s)[i := ODict []]"
  let ?s1 = "s\<lparr>heap := ?h1\<rparr>"
  have gd: "get_dict (heap s) item = Some [(k, tb)]" using i by (simp add: get_dict_def)
  have pop: "popitem item (heap s) = Inr ((k, tb), ?h1)" using gd i by (simp add: popitem_def)
  have tb1: "get_dict ?h1 tb = get_dict (heap s) tb"
    using ne i(1) by (simp add: get_dict_update_other)
  from run gd pop obtain block where block: "get_dict ?h1 tb = Some block"
    by (cases "get_dict ?h1 tb") auto
  have agree1: "\<forall>a < length (heap s). PRef a \<noteq> item \<longrightarrow> PRef a \<noteq> block_of (heap s) item \<longrightarrow>
      ?h1 ! a = heap s ! a" using i(1) by simp
  consider (config) "k = KStr ''config''" | (test) "k = KStr ''test''"
    | (other) "k \<noteq> KStr ''config''" "k \<noteq> KStr ''test''" by blast
  then show ?case
  proof cases
    case config
    from run gd pop block config
    have rest: "load_blocks n w items (dict_update config block) teststeps ?s1 = Some (Inr (c, t), s')"
      by simp
    from unshared_Cons [OF u _ agree1] have u1: "unshared ?h1 items"
      and eq: "\<forall>x \<in> set items. entry_of ?h1 x = entry_of (heap s) x
            \<and> get_dict ?h1 (block_of (heap s) x) = get_dict (heap s) (block_of (heap s) x)"
      by simp_all
    from Cons.IH [OF rest] u1
    have "c = foldl dict_update (dict_update config block) (config_blocks ?h1 items)" by simp
    moreover have "config_blocks ?h1 items = config_blocks (heap s) items"
      by (rule config_blocks_cong [OF eq])
    moreover have "config_blocks (heap s) (item # items) = block # config_blocks (heap s) items"
      using e config block tb1 by (simp add: config_blocks_def)
    ultimately show ?thesis by simp
  next
    case test
    from run gd pop block test obtain teststep s2
      where ts: "load_teststep n w tb ?s1 = Some (Inr teststep, s2)"
        and rest: "load_blocks n w items config (teststeps @ [teststep]) s2 = Some (Inr (c, t), s')"
      by (auto split: option.splits sum.splits)
    from load_teststep_frame [OF ts] have fr: "frame_upto (length ?h1) tb ?h1 (heap s2)" by simp
    then have len: "length (heap s) \<le> length (heap s2)" by (simp add: frame_upto_def)
    have agree2: "\<forall>a < length (heap s). PRef a \<noteq> item \<longrightarrow> PRef a \<noteq> block_of (heap s) item \<longrightarrow>
      heap s2 ! a = heap s ! a"
      using fr i(1) b by (auto simp: frame_upto_def)
    from unshared_Cons [OF u len agree2] have u2: "unshared (heap s2) items"
      and eq: "\<forall>x \<in> set items. entry_of (heap s2) x = entry_of (heap s) x
            \<and> get_dict (heap s2) (block_of (heap s) x) = get_dict (heap s) (block_of (heap s) x)"
      by simp_all
    from Cons.IH [OF rest u2]
    have "c = foldl dict_update config (config_blocks (heap s2) items)" .
    moreover have "config_blocks (heap s2) items = config_blocks (heap s) items"
      by (rule config_blocks_cong [OF eq])
    moreover have "config_blocks (heap s) (item # items) = config_blocks (heap s) items"
      using e test by (simp add: config_blocks_def)
    ultimately show ?thesis by simp
  next
    case other
    let ?s2 = "log_msg (Warn_unexpected_block_key k) ?s1"
    have h2: "heap ?s2 = ?h1" by (simp add: log_msg_def)
    from run gd pop block other
    have rest: "load_blocks n w items config teststeps ?s2 = Some (Inr (c, t), s')" by simp
    from unshared_Cons [OF u _ agree1] have u1: "unshared ?h1 items"
      and eq: "\<forall>x \<in> set items. entry_of ?h1 x = entry_of (heap s) x
            \<and> get_dict ?h1 (block_of (heap s) x) = get_dict (heap s) (block_of (heap s) x)"
      by simp_all
    from Cons.IH [OF rest] u1 h2
    have "c = foldl dict_update config (config_blocks ?h1 items)" by simp
    moreover have "config_blocks ?h1 items = config_blocks (heap s) items"
      by (rule config_blocks_cong [OF eq])
    moreover have "config_blocks (heap s) (item # items) = config_blocks (heap s) items"
      using e other by (simp add: config_blocks_def)
    ultimately show ?thesis by simp
  qed
qed

text \<open>
  C7. For a raw testcase whose blocks are unshared dicts of one pair each, the assembled
  testcase holds under \<^verbatim>\<open>"config"\<close> the dict that results from updating an empty dict with
  the \<^verbatim>\<open>"config"\<close> blocks in the order of the file; so a key has the value that the last
  config block with that key gives it.
\<close>

theorem load_testcase_config_merge:
  assumes "py_iter (heap s) raw_testcase = Inr items" "unshared (heap s) items"
    and "load_testcase n w raw_testcase s = Some (Inr testcase, s')"
  shows "\<exists>c t. get_dict (heap s') testcase = Some [(KStr ''config'', c), (KStr ''teststeps'', t)]
     \<and> get_dict (heap s') c = Some (foldl dict_update [] (config_blocks (heap s) items))
     \<and> (\<forall>k. map_of (foldl dict_update [] (config_blocks (heap s) items)) k
            = last_binding k (config_blocks (heap s) items))"
proof -
  from assms(1,3) obtain config teststeps s1
    where lb: "load_blocks n w items [] [] s = Some (Inr (config, teststeps), s1)"
      and t: "testcase = PRef (Suc (Suc (length (heap s1))))"
      and s': "heap s' = heap s1 @ [ODict config, OList teststeps,
        ODict [(KStr ''config'', PRef (length (heap s1))), (KStr ''teststeps'', PRef (Suc (length (heap s1))))]]"
    by (auto simp: load_testcase.simps new_obj_def split: option.splits sum.splits prod.splits)
  from load_blocks_config [OF lb assms(2)]
  have c: "config = foldl dict_update [] (config_blocks (heap s) items)" .
  have "get_dict (heap s') testcase = Some [(KStr ''config'', PRef (length (heap s1))),
      (KStr ''teststeps'', PRef (Suc (length (heap s1))))]"
    by (simp add: get_dict_def t s' nth_append)
  moreover have "get_dict (heap s') (PRef (length (heap s1))) = Some config"
    by (simp add: get_dict_def s' nth_append)
  ultimately show ?thesis
    unfolding c by (simp add: map_of_foldl_dict_update split: option.splits)
qed

lemma weighted_cong:
  assumes "\<forall>x \<in> set items. entry_of h' x = entry_of h x
            \<and> get_dict h' (block_of h x) = get_dict h (block_of h x)"
  shows "map (weighted h') items = map (weighted h) items"
proof -
  have "weighted h' x = weighted h x" if "x \<in> set items" for x
    using assms that by (auto simp: weighted_def block_of_def split: option.splits)
  then show ?thesis by simp
qed

lemma load_locust_blocks_keeps_empty:
  "load_locust_blocks n w items config tests s = Some (r, s') \<Longrightarrow>
   length (heap s) \<le> length (heap s')
   \<and> (\<forall>a < length (heap s). heap s ! a = ODict [] \<longrightarrow> heap s' ! a = ODict [])"
proof (induction items arbitrary: config tests s)
  case Nil
  then show ?case by simp
next
  case (Cons item items)
  note run = Cons.prems
  show ?case
  proof (cases "popitem item (heap s)")
    case (Inl e)
    with run show ?thesis by simp
  next
    case (Inr res)
    obtain k tb h1 where res: "res = ((k, tb), h1)" by (cases res) auto
    from Inr res obtain i pairs where i: "item = PRef i" "i < length (heap s)"
      "heap s ! i = ODict pairs" "pairs \<noteq> []" "h1 = (heap s)[i := ODict (butlast pairs)]"
      by (auto simp: popitem_def split: pval.splits option.splits if_splits dest!: get_dict_SomeD)
    let ?s1 = "s\<lparr>heap := h1\<rparr>"
    have keep1: "length h1 = length (heap s)"
      "\<forall>a < length (heap s). heap s ! a = ODict [] \<longrightarrow> h1 ! a = ODict []"
      using i by (auto simp: nth_list_update)
    consider (config) "k = KStr ''config''" | (test) "k = KStr ''test''"
      | (other) "k \<noteq> KStr ''config''" "k \<noteq> KStr ''test''" by blast
    then show ?thesis
    proof cases
      case config
      show ?thesis
      proof (cases "config_update h1 config tb")
        case (Inl e)
        with run Inr res config have "s' = ?s1" by simp
        with keep1 show ?thesis by simp
      next
        case c1: (Inr config1)
        with run Inr res config
        have "load_locust_blocks n w items config1 tests ?s1 = Some (r, s')" by simp
        from Cons.IH [OF this] keep1 show ?thesis by simp
      qed
    next
      case test
      show ?thesis
      proof (cases "load_teststep n w tb ?s1")
        case None
        with run Inr res test show ?thesis by simp
      next
        case ts: (Some res1)
        obtain r1 s2 where res1: "res1 = (r1, s2)" by (cases res1)
        have keep2: "length (heap s) \<le> length (heap s2)
            \<and> (\<forall>a < length (heap s). heap s ! a = ODict [] \<longrightarrow> heap s2 ! a = ODict [])"
          using load_teststep_keeps_empty [OF ts [unfolded res1]]
            load_teststep_grows [OF ts [unfolded res1]] keep1 by simp
        show ?thesis
        proof (cases "\<exists>c t. load_locust_blocks n w items c t s2 = Some (r, s')")
          case True
          then obtain c t where "load_locust_blocks n w items c t s2 = Some (r, s')" by blast
          from Cons.IH [OF this] keep2 show ?thesis by (meson le_trans less_le_trans)
        next
          case False
          with run Inr res test ts res1 have "s' = s2"
            by (auto split: sum.splits option.splits)
          with keep2 show ?thesis by simp
        qed
      qed
    next
      case other
      with run Inr res have "load_locust_blocks n w items config tests ?s1 = Some (r, s')" by simp
      from Cons.IH [OF this] keep1 show ?thesis by simp
    qed
  qed
qed

lemma load_locust_blocks_run:
  "load_locust_blocks n w items config tests s = Some (Inr (c, t), s') \<Longrightarrow>
   unshared (heap s) items \<Longrightarrow>
   t = tests @ concat (map (weighted (heap s)) items)
   \<and> (\<forall>item \<in> set items. get_dict (heap s') item = Some [])"
proof (induction items arbitrary: config tests s)
  case Nil
  then show ?case by simp
next
  case (Cons item items)
  note run = Cons.prems(1) and u = Cons.prems(2)
  from u obtain i k tb where i: "item = PRef i" "i < length (heap s)" "heap s ! i = ODict [(k, tb)]"
    and e: "entry_of (heap s) item = Some (k, tb)" and b: "block_of (heap s) item = tb"
    and ne: "tb \<noteq> item" by (rule unshared_head)
  let ?h1 = "(heap s)[i := ODict []]"
  let ?s1 = "s\<lparr>heap := ?h1\<rparr>"
  have gd: "get_dict (heap s) item = Some [(k, tb)]" using i by (simp add: get_dict_def)
  have pop: "popitem item (heap s) = Inr ((k, tb), ?h1)" using gd i by (simp add: popitem_def)
  have tb1: "get_dict ?h1 tb = get_dict (heap s) tb"
    using ne i(1) by (simp add: get_dict_update_other)
  have e1: "i < length ?h1" "?h1 ! i = ODict []" using i by simp_all
  have agree1: "\<forall>a < length (heap s). PRef a \<noteq> item \<longrightarrow> PRef a \<noteq> block_of (heap s) item \<longrightarrow>
      ?h1 ! a = heap s ! a" using i(1) by simp
  have "\<exists>c1 t1 s2. load_locust_blocks n w items c1 t1 s2 = Some (Inr (c, t), s')
      \<and> t1 = tests @ weighted (heap s) item
      \<and> length (heap s) \<le> length (heap s2)
      \<and> (\<forall>a < length (heap s). PRef a \<noteq> item \<longrightarrow> PRef a \<noteq> block_of (heap s) item \<longrightarrow>
            heap s2 ! a = heap s ! a)
      \<and> i < length (heap s2) \<and> heap s2 ! i = ODict []"
  proof -
    consider (config) "k = KStr ''config''" | (test) "k = KStr ''test''"
      | (other) "k \<noteq> KStr ''config''" "k \<noteq> KStr ''test''" by blast
    then show ?thesis
    proof cases
      case config
      with run pop obtain config1
        where "load_locust_blocks n w items config1 tests ?s1 = Some (Inr (c, t), s')"
        by (auto split: sum.splits)
      moreover have "weighted (heap s) item = []" using e config by (simp add: weighted_def)
      ultimately show ?thesis using agree1 e1
        by (intro exI [of _ config1] exI [of _ tests] exI [of _ ?s1]) simp
    next
      case test
      with run pop obtain teststep s2 block weight
        where ts: "load_teststep n w tb ?s1 = Some (Inr teststep, s2)"
          and bl: "get_dict (heap s2) tb = Some block"
          and wt: "range_count (dict_get block ''weight'' (PInt 1)) = Some weight"
          and rest: "load_locust_blocks n w items config (tests @ replicate weight teststep) s2
              = Some (Inr (c, t), s')"
        by (auto split: option.splits sum.splits)
      from load_teststep_content [OF ts] have step: "teststep = tb" by simp
      have "\<exists>es. get_dict (heap s) tb = Some es
          \<and> dict_get es ''weight'' (PInt 1) = dict_get block ''weight'' (PInt 1)"
      proof (cases "get_dict ?h1 tb")
        case None
        with load_teststep_not_dict [OF ts] have "s2 = ?s1" by simp
        with bl None show ?thesis by simp
      next
        case (Some es)
        with load_teststep_content [OF ts] bl
        have "map_of block (KStr ''weight'') = map_of es (KStr ''weight'')" by auto
        with Some tb1 show ?thesis by (simp add: dict_get_def)
      qed
      with e test wt have wh: "weighted (heap s) item = replicate weight tb"
        by (auto simp: weighted_def)
      from load_teststep_frame [OF ts] have fr: "frame_upto (length ?h1) tb ?h1 (heap s2)" by simp
      then have len: "length (heap s) \<le> length (heap s2)" by (simp add: frame_upto_def)
      have agree2: "\<forall>a < length (heap s). PRef a \<noteq> item \<longrightarrow> PRef a \<noteq> block_of (heap s) item \<longrightarrow>
          heap s2 ! a = heap s ! a"
        using fr i(1) b by (auto simp: frame_upto_def)
      from load_teststep_keeps_empty [OF ts] e1 len
      have "i < length (heap s2) \<and> heap s2 ! i = ODict []" using i(2) by simp
      with rest wh step len agree2 show ?thesis
        by (intro exI [of _ config] exI [of _ "tests @ replicate weight teststep"] exI [of _ s2]) simp
    next
      case other
      with run pop have "load_locust_blocks n w items config tests ?s1 = Some (Inr (c, t), s')"
        by simp
      moreover have "weighted (heap s) item = []" using e other by (simp add: weighted_def)
      ultimately show ?thesis using agree1 e1
        by (intro exI [of _ config] exI [of _ tests] exI [of _ ?s1]) simp
    qed
  qed
  then obtain c1 t1 s2 where rest: "load_locust_blocks n w items c1 t1 s2 = Some (Inr (c, t), s')"
    and t1: "t1 = tests @ weighted (heap s) item"
    and len: "length (heap s) \<le> length (heap s2)"
    and agree: "\<forall>a < length (heap s). PRef a \<noteq> item \<longrightarrow> PRef a \<noteq> block_of (heap s) item \<longrightarrow>
            heap s2 ! a = heap s ! a"
    and e2: "i < length (heap s2)" "heap s2 ! i = ODict []" by blast
  from unshared_Cons [OF u len agree] have u2: "unshared (heap s2) items"
    and eq: "\<forall>x \<in> set items. entry_of (heap s2) x = entry_of (heap s) x
            \<and> get_dict (heap s2) (block_of (heap s) x) = get_dict (heap s) (block_of (heap s) x)"
    by simp_all
  have wc: "map (weighted (heap s2)) items = map (weighted (heap s)) items"
    by (rule weighted_cong [OF eq])
  from Cons.IH [OF rest u2] have "t = t1 @ concat (map (weighted (heap s2)) items)"
    and emp: "\<forall>item \<in> set items. get_dict (heap s') item = Some []" by simp_all
  then have "t = tests @ concat (map (weighted (heap s)) (item # items))"
    unfolding wc t1 by simp
  moreover from load_locust_blocks_keeps_empty [OF rest] e2
  have "get_dict (heap s') item = Some []" by (simp add: get_dict_def i(1))
  ultimately show ?case using emp by simp
qed

lemma load_locust_blocks_head:
  assumes run: "load_locust_blocks n w (item # items) config tests s = Some (Inr (c, t), s')"
    and u: "unshared (heap s) (item # items)"
  shows "\<exists>c1 t1 s2.
      (\<forall>rest. load_locust_blocks n w (item # rest) config tests s
          = load_locust_blocks n w rest c1 t1 s2)
    \<and> t1 = tests @ weighted (heap s) item
    \<and> length (heap s) \<le> length (heap s2)
    \<and> (\<forall>a < length (heap s). PRef a \<noteq> item \<longrightarrow> PRef a \<noteq> block_of (heap s) item \<longrightarrow>
          heap s2 ! a = heap s ! a)
    \<and> (\<forall>tb. entry_of (heap s) item = Some (KStr ''test'', tb) \<longrightarrow>
         (\<exists>h1 block weight. popitem item (heap s) = Inr ((KStr ''test'', tb), h1)
            \<and> get_dict h1 tb = get_dict (heap s) tb
            \<and> load_teststep n w tb (s\<lparr>heap := h1\<rparr>) = Some (Inr tb, s2)
            \<and> get_dict (heap s) tb = Some block
            \<and> range_count (dict_get block ''weight'' (PInt 1)) = Some weight
            \<and> c1 = config \<and> t1 = tests @ replicate weight tb))"
proof -
  from u obtain i k tb where i: "item = PRef i" "i < length (heap s)" "heap s ! i = ODict [(k, tb)]"
    and e: "entry_of (heap s) item = Some (k, tb)" and b: "block_of (heap s) item = tb"
    and ne: "tb \<noteq> item" by (rule unshared_head)
  let ?h1 = "(heap s)[i := ODict []]"
  let ?s1 = "s\<lparr>heap := ?h1\<rparr>"
  have gd: "get_dict (heap s) item = Some [(k, tb)]" using i by (simp add: get_dict_def)
  have pop: "popitem item (heap s) = Inr ((k, tb), ?h1)" using gd i by (simp add: popitem_def)
  have tb1: "get_dict ?h1 tb = get_dict (heap s) tb"
    using ne i(1) by (simp add: get_dict_update_other)
  have agree1: "\<forall>a < length (heap s). PRef a \<noteq> item \<longrightarrow> PRef a \<noteq> block_of (heap s) item \<longrightarrow>
      ?h1 ! a = heap s ! a" using i(1) by simp
  consider (config) "k = KStr ''config''" | (test) "k = KStr ''test''"
    | (other) "k \<noteq> KStr ''config''" "k \<noteq> KStr ''test''" by blast
  then show ?thesis
  proof cases
    case config
    with run pop obtain config1 where c1: "config_update ?h1 config tb = Inr config1"
      by (auto split: sum.splits)
    have "\<forall>rest. load_locust_blocks n w (item # rest) config tests s
        = load_locust_blocks n w rest config1 tests ?s1"
      using pop config c1 by simp
    moreover have "weighted (heap s) item = []" using e config by (simp add: weighted_def)
    ultimately show ?thesis using agree1 e config
      by (intro exI [of _ config1] exI [of _ tests] exI [of _ ?s1]) simp
  next
    case test
    with run pop obtain teststep s2 block weight
      where ts: "load_teststep n w tb ?s1 = Some (Inr teststep, s2)"
        and bl: "get_dict (heap s2) tb = Some block"
        and wt: "range_count (dict_get block ''weight'' (PInt 1)) = Some weight"
      by (auto split: option.splits sum.splits)
    from load_teststep_content [OF ts] have step: "teststep = tb" by simp
    have "\<exists>es. get_dict (heap s) tb = Some es
        \<and> dict_get es ''weight'' (PInt 1) = dict_get block ''weight'' (PInt 1)"
    proof (cases "get_dict ?h1 tb")
      case None
      with load_teststep_not_dict [OF ts] have "s2 = ?s1" by simp
      with bl None show ?thesis by simp
    next
      case (Some es)
      with load_teststep_content [OF ts] bl
      have "map_of block (KStr ''weight'') = map_of es (KStr ''weight'')" by auto
      with Some tb1 show ?thesis by (simp add: dict_get_def)
    qed
    then obtain es where es: "get_dict (heap s) tb = Some es"
      "range_count (dict_get es ''weight'' (PInt 1)) = Some weight" using wt by auto
    with e test have wh: "weighted (heap s) item = replicate weight tb"
      by (auto simp: weighted_def)
    from load_teststep_frame [OF ts] have fr: "frame_upto (length ?h1) tb ?h1 (heap s2)" by simp
    then have len: "length (heap s) \<le> length (heap s2)" by (simp add: frame_upto_def)
    have agree2: "\<forall>a < length (heap s). PRef a \<noteq> item \<longrightarrow> PRef a \<noteq> block_of (heap s) item \<longrightarrow>
        heap s2 ! a = heap s ! a"
      using fr i(1) b by (auto simp: frame_upto_def)
    have eq: "\<forall>rest. load_locust_blocks n w (item # rest) config tests s
        = load_locust_blocks n w rest config (tests @ replicate weight tb) s2"
      using pop test ts bl wt step by simp
    have cl: "\<forall>tb'. entry_of (heap s) item = Some (KStr ''test'', tb') \<longrightarrow>
         (\<exists>h1 block weight'. popitem item (heap s) = Inr ((KStr ''test'', tb'), h1)
            \<and> get_dict h1 tb' = get_dict (heap s) tb'
            \<and> load_teststep n w tb' (s\<lparr>heap := h1\<rparr>) = Some (Inr tb', s2)
            \<and> get_dict (heap s) tb' = Some block
            \<and> range_count (dict_get block ''weight'' (PInt 1)) = Some weight'
            \<and> config = config \<and> tests @ replicate weight tb = tests @ replicate weight' tb')"
    proof (intro allI impI)
      fix tb' assume "entry_of (heap s) item = Some (KStr ''test'', tb')"
      with e have t': "tb' = tb" by simp
      show "\<exists>h1 block weight'. popitem item (heap s) = Inr ((KStr ''test'', tb'), h1)
            \<and> get_dict h1 tb' = get_dict (heap s) tb'
            \<and> load_teststep n w tb' (s\<lparr>heap := h1\<rparr>) = Some (Inr tb', s2)
            \<and> get_dict (heap s) tb' = Some block
            \<and> range_count (dict_get block ''weight'' (PInt 1)) = Some weight'
            \<and> config = config \<and> tests @ replicate weight tb = tests @ replicate weight' tb'"
        unfolding t'
        using pop [unfolded test] tb1 ts [unfolded step] es
        by (intro exI [of _ ?h1] exI [of _ es] exI [of _ weight]) simp
    qed
    show ?thesis
      apply (rule exI [of _ config], rule exI [of _ "tests @ replicate weight tb"], rule exI [of _ s2])
      using eq wh len agree2 cl by simp
  next
    case other
    have "\<forall>rest. load_locust_blocks n w (item # rest) config tests s
        = load_locust_blocks n w rest config tests ?s1"
      using pop other by simp
    moreover have "weighted (heap s) item = []" using e other by (simp add: weighted_def)
    ultimately show ?thesis using agree1 e other
      by (intro exI [of _ config] exI [of _ tests] exI [of _ ?s1]) simp
  qed
qed

lemma unshared_blocks_same:
  assumes "\<forall>x \<in> set items. entry_of h' x = entry_of h x"
  shows "map (block_of h') items = map (block_of h) items"
  using assms by (simp add: block_of_def)

lemma load_locust_blocks_split:
  "load_locust_blocks n w (pre @ post) config tests s = Some (Inr (c, t), s') \<Longrightarrow>
   unshared (heap s) (pre @ post) \<Longrightarrow>
   \<exists>c1 t1 s1. load_locust_blocks n w pre config tests s = Some (Inr (c1, t1), s1)
     \<and> load_locust_blocks n w post c1 t1 s1 = Some (Inr (c, t), s')
     \<and> unshared (heap s1) post
     \<and> length (heap s) \<le> length (heap s1)
     \<and> (\<forall>x \<in> set post. entry_of (heap s1) x = entry_of (heap s) x
            \<and> get_dict (heap s1) (block_of (heap s) x) = get_dict (heap s) (block_of (heap s) x))"
proof (induction pre arbitrary: config tests s)
  case Nil
  then show ?case by simp
next
  case (Cons p pre)
  from Cons.prems have run: "load_locust_blocks n w (p # (pre @ post)) config tests s = Some (Inr (c, t), s')"
    and u: "unshared (heap s) (p # (pre @ post))" by simp_all
  from load_locust_blocks_head [OF run u] obtain c1 t1 s2
    where eq: "\<forall>rest. load_locust_blocks n w (p # rest) config tests s
          = load_locust_blocks n w rest c1 t1 s2"
      and len: "length (heap s) \<le> length (heap s2)"
      and agree: "\<forall>a < length (heap s). PRef a \<noteq> p \<longrightarrow> PRef a \<noteq> block_of (heap s) p \<longrightarrow>
          heap s2 ! a = heap s ! a"
    by blast
  from unshared_Cons [OF u len agree] have u2: "unshared (heap s2) (pre @ post)"
    and same: "\<forall>x \<in> set (pre @ post). entry_of (heap s2) x = entry_of (heap s) x
            \<and> get_dict (heap s2) (block_of (heap s) x) = get_dict (heap s) (block_of (heap s) x)"
    by simp_all
  from run eq have rest: "load_locust_blocks n w (pre @ post) c1 t1 s2 = Some (Inr (c, t), s')"
    by simp
  from Cons.IH [OF rest u2] obtain c2 t2 s1
    where a: "load_locust_blocks n w pre c1 t1 s2 = Some (Inr (c2, t2), s1)"
      and b: "load_locust_blocks n w post c2 t2 s1 = Some (Inr (c, t), s')"
      and u1: "unshared (heap s1) post"
      and len1: "length (heap s2) \<le> length (heap s1)"
      and same1: "\<forall>x \<in> set post. entry_of (heap s1) x = entry_of (heap s2) x
            \<and> get_dict (heap s1) (block_of (heap s2) x) = get_dict (heap s2) (block_of (heap s2) x)"
    by blast
  have bo: "block_of (heap s2) x = block_of (heap s) x" if "x \<in> set post" for x
    using same that by (simp add: block_of_def)
  have "\<forall>x \<in> set post. entry_of (heap s1) x = entry_of (heap s) x
            \<and> get_dict (heap s1) (block_of (heap s) x) = get_dict (heap s) (block_of (heap s) x)"
    using same same1 bo by simp
  moreover from eq a have "load_locust_blocks n w (p # pre) config tests s = Some (Inr (c2, t2), s1)"
    by simp
  ultimately show ?case using b u1 len len1 by (intro exI [of _ c2] exI [of _ t2] exI [of _ s1]) simp
qed

lemma load_locust_blocks_apart:
  "load_locust_blocks n w items config tests s = Some (Inr (c, t), s') \<Longrightarrow>
   unshared (heap s) items \<Longrightarrow>
   length (heap s) \<le> length (heap s')
   \<and> (\<forall>a < length (heap s). PRef a \<notin> set items \<longrightarrow> PRef a \<notin> set (map (block_of (heap s)) items) \<longrightarrow>
         heap s' ! a = heap s ! a)"
proof (induction items arbitrary: config tests s)
  case Nil
  then show ?case by simp
next
  case (Cons item items)
  note run = Cons.prems(1) and u = Cons.prems(2)
  from load_locust_blocks_head [OF run u] obtain c1 t1 s2
    where eq: "\<forall>rest. load_locust_blocks n w (item # rest) config tests s
          = load_locust_blocks n w rest c1 t1 s2"
      and len: "length (heap s) \<le> length (heap s2)"
      and agree: "\<forall>a < length (heap s). PRef a \<noteq> item \<longrightarrow> PRef a \<noteq> block_of (heap s) item \<longrightarrow>
          heap s2 ! a = heap s ! a"
    by blast
  from unshared_Cons [OF u len agree] have u2: "unshared (heap s2) items"
    and same: "\<forall>x \<in> set items. entry_of (heap s2) x = entry_of (heap s) x
            \<and> get_dict (heap s2) (block_of (heap s) x) = get_dict (heap s) (block_of (heap s) x)"
    by simp_all
  from same have bl: "map (block_of (heap s2)) items = map (block_of (heap s)) items"
    by (intro unshared_blocks_same) simp
  from run eq have rest: "load_locust_blocks n w items c1 t1 s2 = Some (Inr (c, t), s')" by simp
  from Cons.IH [OF rest u2] have len2: "length (heap s2) \<le> length (heap s')"
    and fr: "\<forall>a < length (heap s2). PRef a \<notin> set items \<longrightarrow>
        PRef a \<notin> set (map (block_of (heap s)) items) \<longrightarrow> heap s' ! a = heap s2 ! a"
    unfolding bl by simp_all
  have "heap s' ! a = heap s ! a"
    if "a < length (heap s)" "PRef a \<notin> set (item # items)"
      "PRef a \<notin> set (map (block_of (heap s)) (item # items))" for a
  proof -
    from that len have "heap s' ! a = heap s2 ! a" using fr by simp
    also from that agree have "heap s2 ! a = heap s ! a" by simp
    finally show ?thesis .
  qed
  with len len2 show ?case by simp
qed

lemma weighted_subset: "set (weighted h y) \<subseteq> {block_of h y}"
proof (cases "entry_of h y")
  case None
  then show ?thesis by (simp add: weighted_def)
next
  case (Some kv)
  show ?thesis
  proof (cases "fst kv = KStr ''test''")
    case False
    with Some show ?thesis by (simp add: weighted_def)
  next
    case True
    show ?thesis
    proof (cases "get_dict h (snd kv)")
      case None
      with Some True show ?thesis by (simp add: weighted_def)
    next
      case block: (Some block)
      show ?thesis
      proof (cases "range_count (dict_get block ''weight'' (PInt 1))")
        case None
        with Some True block show ?thesis by (simp add: weighted_def)
      next
        case (Some weight)
        with \<open>entry_of h y = Some kv\<close> True block show ?thesis
          by (simp add: weighted_def block_of_def set_replicate_conv_if)
      qed
    qed
  qed
qed

lemma count_list_replicate_same: "count_list (replicate n x) x = n"
  by (induction n) simp_all

lemma count_weighted_none:
  "\<forall>y \<in> set items. block_of h y \<noteq> v \<Longrightarrow> count_list (concat (map (weighted h) items)) v = 0"
proof (induction items)
  case Nil
  then show ?case by simp
next
  case (Cons y items)
  from Cons.prems have "v \<notin> set (weighted h y)" using weighted_subset [of h y] by auto
  then have "count_list (weighted h y) v = 0" by (simp add: count_list_0_iff)
  with Cons show ?case by simp
qed

lemma count_weighted:
  "distinct items \<Longrightarrow> item \<in> set items \<Longrightarrow>
   \<forall>y \<in> set items. y \<noteq> item \<longrightarrow> block_of h y \<noteq> v \<Longrightarrow>
   count_list (concat (map (weighted h) items)) v = count_list (weighted h item) v"
proof (induction items)
  case Nil
  then show ?case by simp
next
  case (Cons y items)
  show ?case
  proof (cases "y = item")
    case True
    with Cons.prems have "\<forall>x \<in> set items. block_of h x \<noteq> v" by auto
    then have "count_list (concat (map (weighted h) items)) v = 0" by (rule count_weighted_none)
    with True show ?thesis by simp
  next
    case False
    with Cons.prems have "v \<notin> set (weighted h y)" using weighted_subset [of h y] by auto
    then have "count_list (weighted h y) v = 0" by (simp add: count_list_0_iff)
    moreover from False Cons have "count_list (concat (map (weighted h) items)) v
        = count_list (weighted h item) v" by simp
    ultimately show ?thesis by simp
  qed
qed

lemma unshared_blocks_apart:
  assumes "unshared h items" "x \<in> set items" "y \<in> set items" "y \<noteq> x" "is_ref (block_of h x)"
  shows "block_of h y \<noteq> block_of h x"
proof -
  from assms(1) have "distinct (filter is_ref (map (block_of h) items))"
    by (simp add: unshared_def)
  then have "\<forall>x \<in> set items. \<forall>y \<in> set items. y \<noteq> x \<longrightarrow> is_ref (block_of h x) \<longrightarrow>
      block_of h y \<noteq> block_of h x"
  proof (induction items)
    case Nil
    then show ?case by simp
  next
    case (Cons z items)
    show ?case
    proof (cases "is_ref (block_of h z)")
      case True
      with Cons.prems have nz: "block_of h z \<notin> set (filter is_ref (map (block_of h) items))"
        and d: "distinct (filter is_ref (map (block_of h) items))" by simp_all
      have "\<forall>u \<in> set items. block_of h u \<noteq> block_of h z"
      proof (intro ballI notI)
        fix u assume "u \<in> set items" "block_of h u = block_of h z"
        with True have "block_of h z \<in> set (filter is_ref (map (block_of h) items))"
          by (auto simp: image_iff intro: bexI [of _ u])
        with nz show False by simp
      qed
      with Cons.IH [OF d] show ?thesis by (auto simp: eq_commute [of "block_of h z"])
    next
      case False
      with Cons.prems have d: "distinct (filter is_ref (map (block_of h) items))" by simp
      from Cons.IH [OF d] False show ?thesis by auto
    qed
  qed
  with assms show ?thesis by blast
qed

lemma load_locust_blocks_once:
  assumes run: "load_locust_blocks n w (pre @ item # post) config tests s = Some (Inr (c, t), s')"
    and u: "unshared (heap s) (pre @ item # post)"
    and e: "entry_of (heap s) item = Some (KStr ''test'', PRef b)"
  shows "\<exists>c1 t1 s1 h1 s2 block weight.
      load_locust_blocks n w pre config tests s = Some (Inr (c1, t1), s1)
    \<and> popitem item (heap s1) = Inr ((KStr ''test'', PRef b), h1)
    \<and> get_dict h1 (PRef b) = get_dict (heap s) (PRef b)
    \<and> load_teststep n w (PRef b) (s1\<lparr>heap := h1\<rparr>) = Some (Inr (PRef b), s2)
    \<and> get_dict (heap s) (PRef b) = Some block
    \<and> range_count (dict_get block ''weight'' (PInt 1)) = Some weight
    \<and> load_locust_blocks n w post c1 (t1 @ replicate weight (PRef b)) s2 = Some (Inr (c, t), s')
    \<and> get_dict (heap s') (PRef b) = get_dict (heap s2) (PRef b)"
proof -
  from e have bo: "block_of (heap s) item = PRef b" by (simp add: block_of_def)
  from load_locust_blocks_split [OF run u] obtain c1 t1 s1
    where a: "load_locust_blocks n w pre config tests s = Some (Inr (c1, t1), s1)"
      and rest: "load_locust_blocks n w (item # post) c1 t1 s1 = Some (Inr (c, t), s')"
      and u1: "unshared (heap s1) (item # post)"
      and same: "\<forall>x \<in> set (item # post). entry_of (heap s1) x = entry_of (heap s) x
            \<and> get_dict (heap s1) (block_of (heap s) x) = get_dict (heap s) (block_of (heap s) x)"
    by blast
  from same e bo have e1: "entry_of (heap s1) item = Some (KStr ''test'', PRef b)"
    and g1: "get_dict (heap s1) (PRef b) = get_dict (heap s) (PRef b)" by auto
  from e1 have bo1: "block_of (heap s1) item = PRef b" by (simp add: block_of_def)
  from load_locust_blocks_head [OF rest u1] obtain c2 t2 s2
    where eq: "\<forall>rest. load_locust_blocks n w (item # rest) c1 t1 s1
          = load_locust_blocks n w rest c2 t2 s2"
      and len2: "length (heap s1) \<le> length (heap s2)"
      and agree2: "\<forall>a < length (heap s1). PRef a \<noteq> item \<longrightarrow> PRef a \<noteq> block_of (heap s1) item \<longrightarrow>
          heap s2 ! a = heap s1 ! a"
      and tc: "\<forall>tb. entry_of (heap s1) item = Some (KStr ''test'', tb) \<longrightarrow>
         (\<exists>h1 block weight. popitem item (heap s1) = Inr ((KStr ''test'', tb), h1)
            \<and> get_dict h1 tb = get_dict (heap s1) tb
            \<and> load_teststep n w tb (s1\<lparr>heap := h1\<rparr>) = Some (Inr tb, s2)
            \<and> get_dict (heap s1) tb = Some block
            \<and> range_count (dict_get block ''weight'' (PInt 1)) = Some weight
            \<and> c2 = c1 \<and> t2 = t1 @ replicate weight tb)"
    by blast
  from tc e1 obtain h1 block weight
    where pop: "popitem item (heap s1) = Inr ((KStr ''test'', PRef b), h1)"
      and gh: "get_dict h1 (PRef b) = get_dict (heap s1) (PRef b)"
      and ts: "load_teststep n w (PRef b) (s1\<lparr>heap := h1\<rparr>) = Some (Inr (PRef b), s2)"
      and blk: "get_dict (heap s1) (PRef b) = Some block"
      and wt: "range_count (dict_get block ''weight'' (PInt 1)) = Some weight"
      and c2: "c2 = c1" and t2: "t2 = t1 @ replicate weight (PRef b)"
    by blast
  from rest eq have rest2: "load_locust_blocks n w post c1 (t1 @ replicate weight (PRef b)) s2
      = Some (Inr (c, t), s')" by (simp add: c2 t2)
  from unshared_Cons [OF u1 len2 agree2] have u2: "unshared (heap s2) post"
    and same2: "\<forall>x \<in> set post. entry_of (heap s2) x = entry_of (heap s1) x" by simp_all
  have bl2: "map (block_of (heap s2)) post = map (block_of (heap s1)) post"
    by (rule unshared_blocks_same [OF same2])
  from blk have b1: "b < length (heap s1)" by (auto dest: get_dict_SomeD)
  with len2 have b2: "b < length (heap s2)" by simp
  from u1 have d: "distinct ((item # post) @ filter is_ref (map (block_of (heap s1)) (item # post)))"
    by (simp add: unshared_def)
  have ir: "is_ref (PRef b)" by (simp add: is_ref_def)
  from d bo1 ir have n1: "PRef b \<notin> set post" by auto
  from d bo1 ir have "PRef b \<notin> set (filter is_ref (map (block_of (heap s1)) post))" by auto
  with ir have n2: "PRef b \<notin> set (map (block_of (heap s2)) post)" unfolding bl2 by auto
  from load_locust_blocks_apart [OF rest2 u2] b2 n1 n2
  have "length (heap s2) \<le> length (heap s')" "heap s' ! b = heap s2 ! b" by simp_all
  with b2 have "get_dict (heap s') (PRef b) = get_dict (heap s2) (PRef b)"
    by (simp add: get_dict_def)
  moreover from gh g1 have "get_dict h1 (PRef b) = get_dict (heap s) (PRef b)" by simp
  moreover from blk g1 have "get_dict (heap s) (PRef b) = Some block" by simp
  ultimately show ?thesis using a pop ts wt rest2 by blast
qed

text \<open>
  C8. The loop of \<^verbatim>\<open>load_locust_tests\<close> over a raw testcase of unshared blocks appends to
  its output, for each block in the order of the file, what the block contributes: a
  \<^verbatim>\<open>"test"\<close> block contributes its step, the one object that \<^verbatim>\<open>load_teststep\<close> returned
  for it, as many times as \<^verbatim>\<open>range(weight)\<close> counts, with the step's \<^verbatim>\<open>"weight"\<close> field or
  1 for \<open>weight\<close>; any other block contributes nothing. So a step of weight 3 occurs exactly
  3 times in the output. Each \<^verbatim>\<open>"test"\<close> block is resolved once: the run is the loop over
  the blocks before it, then \<^verbatim>\<open>popitem\<close> and one call of \<^verbatim>\<open>load_teststep\<close> on the step,
  which is still as it was at the start, then the loop over the blocks after it, which
  leaves the step as that call made it.
\<close>

theorem load_locust_blocks_weights:
  assumes "unshared (heap s) items"
    and "load_locust_blocks n w items config tests s = Some (Inr (config', tests'), s')"
  shows "tests' = tests @ concat (map (weighted (heap s)) items)
     \<and> (\<forall>item \<in> set items. \<forall>b block weight.
           entry_of (heap s) item = Some (KStr ''test'', PRef b)
           \<and> get_dict (heap s) (PRef b) = Some block
           \<and> range_count (dict_get block ''weight'' (PInt 1)) = Some weight
           \<longrightarrow> weighted (heap s) item = replicate weight (PRef b)
             \<and> count_list (concat (map (weighted (heap s)) items)) (PRef b) = weight)
     \<and> (\<forall>pre item post b.
           items = pre @ item # post \<and> entry_of (heap s) item = Some (KStr ''test'', PRef b)
           \<longrightarrow> (\<exists>c1 t1 s1 h1 s2 block weight.
                  load_locust_blocks n w pre config tests s = Some (Inr (c1, t1), s1)
                \<and> popitem item (heap s1) = Inr ((KStr ''test'', PRef b), h1)
                \<and> get_dict h1 (PRef b) = get_dict (heap s) (PRef b)
                \<and> load_teststep n w (PRef b) (s1\<lparr>heap := h1\<rparr>) = Some (Inr (PRef b), s2)
                \<and> get_dict (heap s) (PRef b) = Some block
                \<and> range_count (dict_get block ''weight'' (PInt 1)) = Some weight
                \<and> load_locust_blocks n w post c1 (t1 @ replicate weight (PRef b)) s2
                    = Some (Inr (config', tests'), s')
                \<and> get_dict (heap s') (PRef b) = get_dict (heap s2) (PRef b)))"
proof (intro conjI ballI allI impI)
  from load_locust_blocks_run [OF assms(2,1)]
  show "tests' = tests @ concat (map (weighted (heap s)) items)" by simp
next
  fix item b block weight
  assume item: "item \<in> set items"
    and a: "entry_of (heap s) item = Some (KStr ''test'', PRef b)
           \<and> get_dict (heap s) (PRef b) = Some block
           \<and> range_count (dict_get block ''weight'' (PInt 1)) = Some weight"
  then show wt: "weighted (heap s) item = replicate weight (PRef b)" by (simp add: weighted_def)
  from a have bo: "block_of (heap s) item = PRef b" by (simp add: block_of_def)
  then have "is_ref (block_of (heap s) item)" by (simp add: is_ref_def)
  with unshared_blocks_apart [OF assms(1) item] bo
  have "\<forall>y \<in> set items. y \<noteq> item \<longrightarrow> block_of (heap s) y \<noteq> PRef b" by auto
  moreover from assms(1) have "distinct items" by (simp add: unshared_def)
  ultimately have "count_list (concat (map (weighted (heap s)) items)) (PRef b)
      = count_list (weighted (heap s) item) (PRef b)"
    using item by (intro count_weighted) auto
  then show "count_list (concat (map (weighted (heap s)) items)) (PRef b) = weight"
    by (simp add: wt count_list_replicate_same)
next
  fix pre item post b
  assume a: "items = pre @ item # post \<and> entry_of (heap s) item = Some (KStr ''test'', PRef b)"
  with assms have run: "load_locust_blocks n w (pre @ item # post) config tests s
      = Some (Inr (config', tests'), s')"
    and u: "unshared (heap s) (pre @ item # post)" by simp_all
  from a have e: "entry_of (heap s) item = Some (KStr ''test'', PRef b)" by simp
  show "\<exists>c1 t1 s1 h1 s2 block weight.
                  load_locust_blocks n w pre config tests s = Some (Inr (c1, t1), s1)
                \<and> popitem item (heap s1) = Inr ((KStr ''test'', PRef b), h1)
                \<and> get_dict h1 (PRef b) = get_dict (heap s) (PRef b)
                \<and> load_teststep n w (PRef b) (s1\<lparr>heap := h1\<rparr>) = Some (Inr (PRef b), s2)
                \<and> get_dict (heap s) (PRef b) = Some block
                \<and> range_count (dict_get block ''weight'' (PInt 1)) = Some weight
                \<and> load_locust_blocks n w post c1 (t1 @ replicate weight (PRef b)) s2
                    = Some (Inr (config', tests'), s')
                \<and> get_dict (heap s') (PRef b) = get_dict (heap s2) (PRef b)"
    by (rule load_locust_blocks_once [OF run u e])
qed

lemma load_api_items_keeps_empty:
  "load_api_items items m s = (r, s') \<Longrightarrow>
   length (heap s') = length (heap s)
   \<and> (\<forall>a < length (heap s). heap s ! a = ODict [] \<longrightarrow> heap s' ! a = ODict [])"
proof (induction items arbitrary: m s)
  case Nil
  then show ?case by simp
next
  case (Cons item items)
  note run = Cons.prems
  show ?case
  proof (cases "popitem item (heap s)")
    case (Inl e)
    with run show ?thesis by simp
  next
    case (Inr res)
    obtain k api_dict h1 where res: "res = ((k, api_dict), h1)" by (cases res) auto
    from Inr res obtain i pairs where i: "item = PRef i" "i < length (heap s)"
      "heap s ! i = ODict pairs" "pairs \<noteq> []" "h1 = (heap s)[i := ODict (butlast pairs)]"
      by (auto simp: popitem_def split: pval.splits option.splits if_splits dest!: get_dict_SomeD)
    have keep1: "length h1 = length (heap s)"
      "\<forall>a < length (heap s). heap s ! a = ODict [] \<longrightarrow> h1 ! a = ODict []"
      using i by (auto simp: nth_list_update)
    show ?thesis
    proof (cases "\<exists>m1 s1. heap s1 = h1 \<and> load_api_items items m1 s1 = (r, s')")
      case True
      then obtain m1 s1 where "heap s1 = h1" "load_api_items items m1 s1 = (r, s')" by blast
      with Cons.IH [OF this(2)] keep1 show ?thesis by simp
    next
      case False
      then have nf: "\<And>m1 s1. heap s1 = h1 \<Longrightarrow> load_api_items items m1 s1 \<noteq> (r, s')" by blast
      have hs: "heap (s\<lparr>heap := h1\<rparr>) = h1" "\<And>x. heap (log_msg x (s\<lparr>heap := h1\<rparr>)) = h1"
        by (simp_all add: log_msg_def)
      from run Inr res have "heap s' = h1"
        using nf [OF hs(1)] nf [OF hs(2)]
        by (auto split: option.splits if_splits)
      with keep1 show ?thesis by simp
    qed
  qed
qed

lemma load_api_items_consumed:
  "load_api_items items m s = (Inr m', s') \<Longrightarrow>
   \<forall>item \<in> set items. entry_of (heap s) item \<noteq> None \<or> get_dict (heap s) item = Some [] \<Longrightarrow>
   \<forall>item \<in> set items. get_dict (heap s') item = Some []"
proof (induction items arbitrary: m s)
  case Nil
  then show ?case by simp
next
  case (Cons item items)
  note run = Cons.prems(1)
  from run obtain k api_dict h1 where pop: "popitem item (heap s) = Inr ((k, api_dict), h1)"
    by (cases "popitem item (heap s)") auto
  then obtain i pairs where i: "item = PRef i" "i < length (heap s)"
    "heap s ! i = ODict pairs" "pairs \<noteq> []" "h1 = (heap s)[i := ODict (butlast pairs)]"
    by (auto simp: popitem_def split: pval.splits option.splits if_splits dest!: get_dict_SomeD)
  from Cons.prems(2) i have "entry_of (heap s) item \<noteq> None" by (auto simp: get_dict_def)
  with i have "length pairs = 1"
    by (auto simp: entry_of_def get_dict_def split: list.splits)
  then have "butlast pairs = []" by (cases pairs) auto
  with i have h1: "h1 = (heap s)[i := ODict []]" by simp
  have gi: "get_dict h1 item = Some []" unfolding h1 i(1) using i(2) by (rule get_dict_update_same)
  from run pop obtain m1 s1 where s1: "heap s1 = h1" and rest: "load_api_items items m1 s1 = (Inr m', s')"
  proof -
    have hs: "heap (s\<lparr>heap := h1\<rparr>) = h1" "\<And>x. heap (log_msg x (s\<lparr>heap := h1\<rparr>)) = h1"
      by (simp_all add: log_msg_def)
    from run pop have "\<exists>m1 s1. heap s1 = h1 \<and> load_api_items items m1 s1 = (Inr m', s')"
      using hs by (auto split: option.splits if_splits)
    then show ?thesis using that by blast
  qed
  have inv: "\<forall>x \<in> set items. entry_of (heap s1) x \<noteq> None \<or> get_dict (heap s1) x = Some []"
  proof
    fix x assume x: "x \<in> set items"
    show "entry_of (heap s1) x \<noteq> None \<or> get_dict (heap s1) x = Some []"
    proof (cases "x = item")
      case True
      then show ?thesis using gi by (simp add: s1)
    next
      case False
      then have "get_dict (heap s1) x = get_dict (heap s) x"
        unfolding s1 h1 using i(1) by (simp add: get_dict_update_other)
      with Cons.prems(2) x show ?thesis by (auto simp: entry_of_def)
    qed
  qed
  from Cons.IH [OF rest inv] have emp: "\<forall>item \<in> set items. get_dict (heap s') item = Some []" .
  from load_api_items_keeps_empty [OF rest] i(1,2) have "get_dict (heap s') item = Some []"
    by (simp add: s1 h1 get_dict_def)
  with emp show ?case by simp
qed

text \<open>
  C9. \<^verbatim>\<open>load_testcase\<close> consumes its input: when it returns a testcase, every element
  that the loop took from the caller's \<^verbatim>\<open>raw_testcase\<close> is an empty dict. The loops of
  \<^verbatim>\<open>load_locust_tests\<close> and \<^verbatim>\<open>load_api_folder\<close>, which call \<^verbatim>\<open>popitem\<close> without a
  check of the block, do the same to blocks of one pair (for \<^verbatim>\<open>load_locust_tests\<close>:
  unshared ones).
\<close>

theorem load_testcase_consumes_input:
  "(load_testcase n w raw_testcase s = Some (Inr testcase, s')
      \<and> py_iter (heap s) raw_testcase = Inr items
      \<longrightarrow> (\<forall>item \<in> set items. get_dict (heap s') item = Some []))
   \<and> (load_locust_blocks n w items config tests s = Some (Inr res, s') \<and> unshared (heap s) items
      \<longrightarrow> (\<forall>item \<in> set items. get_dict (heap s') item = Some []))
   \<and> (load_api_items items m s = (Inr m', s')
        \<and> list_all (\<lambda>item. entry_of (heap s) item \<noteq> None) items
      \<longrightarrow> (\<forall>item \<in> set items. get_dict (heap s') item = Some []))"
proof (intro conjI impI)
  assume "load_testcase n w raw_testcase s = Some (Inr testcase, s')
      \<and> py_iter (heap s) raw_testcase = Inr items"
  then show "\<forall>item \<in> set items. get_dict (heap s') item = Some []"
    using load_testcase_consumed by blast
next
  assume a: "load_locust_blocks n w items config tests s = Some (Inr res, s') \<and> unshared (heap s) items"
  obtain c t where "res = (c, t)" by (cases res)
  with a load_locust_blocks_run [of n w items config tests s c t s']
  show "\<forall>item \<in> set items. get_dict (heap s') item = Some []" by simp
next
  assume a: "load_api_items items m s = (Inr m', s')
        \<and> list_all (\<lambda>item. entry_of (heap s) item \<noteq> None) items"
  then have "\<forall>item \<in> set items. entry_of (heap s) item \<noteq> None \<or> get_dict (heap s) item = Some []"
    by (simp add: list_all_iff)
  with a show "\<forall>item \<in> set items. get_dict (heap s') item = Some []"
    using load_api_items_consumed by blast
qed

lemma reach_update_outside_aux:
  "a \<notin> set (reach n h v) \<Longrightarrow> reach n (h[a := ob]) v = reach n h v"
  "a \<notin> set (reach_list n h vs) \<Longrightarrow> reach_list n (h[a := ob]) vs = reach_list n h vs"
proof (induction n h v and n h vs rule: reach_reach_list.induct)
  case (6 n h b)
  then show ?case by (auto split: obj.splits)
qed simp_all

lemma reify_update_outside_aux:
  "reify n h v = Some t \<Longrightarrow> a \<notin> set (reach n h v) \<Longrightarrow> reify n (h[a := ob]) v = Some t"
  "reify_list n h vs = Some ts \<Longrightarrow> a \<notin> set (reach_list n h vs) \<Longrightarrow>
     reify_list n (h[a := ob]) vs = Some ts"
  "reify_items n h es = Some kts \<Longrightarrow> a \<notin> set (reach_list n h (map snd es)) \<Longrightarrow>
     reify_items n (h[a := ob]) es = Some kts"
proof (induction n h v and n h vs and n h es arbitrary: t and ts and kts
    rule: reify_reify_list_reify_items.induct)
  case (6 n h b)
  then show ?case by (auto split: obj.splits if_splits)
next
  case (8 n h v vs)
  then show ?case by (auto split: option.splits)
next
  case (10 n h kv es)
  then show ?case by (auto split: option.splits)
qed simp_all

lemma reach_bounded_aux:
  "reify n h v = Some t \<Longrightarrow> set (reach m (h @ ext) v) \<subseteq> {..<length h}"
  "reify_list n h vs = Some ts \<Longrightarrow> set (reach_list m (h @ ext) vs) \<subseteq> {..<length h}"
  "reify_items n h es = Some kts \<Longrightarrow> set (reach_list m (h @ ext) (map snd es)) \<subseteq> {..<length h}"
proof (induction n h v and n h vs and n h es arbitrary: t m and ts m and kts m
    rule: reify_reify_list_reify_items.induct)
  case (6 n h b)
  from 6(3) have b: "b < length h" by (simp split: if_splits)
  show ?case
  proof (cases m)
    case 0
    with b show ?thesis by simp
  next
    case (Suc m')
    show ?thesis
    proof (cases "h ! b")
      case (ODict es)
      with 6(3) b obtain kts where "reify_items n h es = Some kts" by auto
      from 6(1) [OF b ODict this] show ?thesis using b ODict Suc by (simp add: nth_append)
    next
      case (OList vs)
      with 6(3) b obtain ts where "reify_list n h vs = Some ts" by auto
      from 6(2) [OF b OList this] show ?thesis using b OList Suc by (simp add: nth_append)
    qed
  qed
next
  case (8 n h v vs)
  from 8(3) obtain t' ts' where "reify n h v = Some t'" "reify_list n h vs = Some ts'"
    by (auto split: option.splits)
  with 8(1) [of t' m] 8(2) [of t' ts' m] show ?case by simp
next
  case (10 n h kv es)
  from 10(3) obtain t' kts' where "reify n h (snd kv) = Some t'" "reify_items n h es = Some kts'"
    by (auto split: option.splits)
  with 10(1) [of t' m] 10(2) [of t' kts' m] show ?case by simp
qed simp_all

lemma reach_ge_aux:
  assumes cl: "\<forall>b. L \<le> b \<longrightarrow> b < length h \<longrightarrow> refs_ge L (h ! b)"
  shows "val_ge L v \<Longrightarrow> \<forall>a \<in> set (reach n h v). L \<le> a"
    and "\<forall>v \<in> set vs. val_ge L v \<Longrightarrow> \<forall>a \<in> set (reach_list n h vs). L \<le> a"
  using cl
proof (induction n h v and n h vs rule: reach_reach_list.induct)
  case (6 n h b)
  from 6(3) have b: "L \<le> b" by (simp add: val_ge_def)
  show ?case
  proof (cases "b < length h")
    case True
    with b 6(4) have r: "refs_ge L (h ! b)" by simp
    show ?thesis
    proof (cases "h ! b")
      case (ODict es)
      with r have "\<forall>v \<in> set (map snd es). val_ge L v" by (auto simp: refs_ge_def)
      from 6(1) [OF True ODict this 6(4)] show ?thesis using b True ODict by simp
    next
      case (OList vs)
      with r have "\<forall>v \<in> set vs. val_ge L v" by (auto simp: refs_ge_def)
      from 6(2) [OF True OList this 6(4)] show ?thesis using b True OList by simp
    qed
  next
    case False
    with b show ?thesis by simp
  qed
qed (auto simp: val_ge_def)

lemma value_outside:
  assumes v: "value_of h block = Some content"
    and a1: "a1 \<notin> set (reach (length h) h block)"
    and a2: "a2 \<notin> set (reach (length h) h block)"
  shows "value_of (h[a1 := o1, a2 := o2] @ ext) block = Some content"
proof -
  from v have "reify (length h) h block = Some content" by (simp add: value_of_def)
  from reify_update_outside_aux(1) [OF this a1]
  have "reify (length h) (h[a1 := o1]) block = Some content" .
  moreover from a2 have "a2 \<notin> set (reach (length h) (h[a1 := o1]) block)"
    by (simp add: reach_update_outside_aux(1) [OF a1])
  ultimately have "reify (length h) (h[a1 := o1, a2 := o2]) block = Some content"
    by (rule reify_update_outside_aux(1))
  then have "reify (length h) (h[a1 := o1, a2 := o2] @ ext) block = Some content"
    by (rule reify_append_aux(1))
  then show ?thesis unfolding value_of_def by (rule reify_mono) simp
qed

lemma value_outside_one:
  assumes "value_of h block = Some content" "a \<notin> set (reach (length h) h block)"
  shows "value_of (h[a := ob] @ ext) block = Some content"
  using value_outside [OF assms(1) assms(2) assms(2), of ob ob ext] by simp

lemma load_teststep_api_copy:
  assumes cache: "map_of (tests_def_mapping s) (KStr ''api'') = Some apis"
      "get_dict (heap s) apis = Some defs"
    and entry: "to_key name = Some k" "map_of defs k = Some block"
      "value_of (heap s) block = Some content"
    and step: "get_dict (heap s) (PRef a) = Some es" "map_of es (KStr ''api'') = Some name"
  shows "\<exists>d new. alloc content (heap s) = (d, heap s @ new)
     \<and> load_teststep n w (PRef a) s
         = Some (Inr (PRef a),
             s\<lparr>heap := (heap s)[a := ODict (AList.update (KStr ''api_def'') d es)] @ new\<rparr>)"
proof -
  from step(1) have a: "a < length (heap s)" "heap s ! a = ODict es"
    by (auto dest: get_dict_SomeD)
  obtain d h' where al: "alloc content (heap s) = (d, h')" by (cases "alloc content (heap s)")
  from alloc_reify [OF al] obtain new where h': "h' = heap s @ new" by blast
  have gd: "get_dict h' (PRef a) = Some es" using a by (simp add: h' get_dict_def nth_append)
  have "load_teststep n w (PRef a) s
      = Some (Inr (PRef a), s\<lparr>heap := h'[a := ODict (AList.update (KStr ''api_def'') d es)]\<rparr>)"
    using gd
    by (simp add: load_teststep_api_branch [OF step] get_api_definition_def cache entry
        deepcopy_dict_def store_value_alloc al attach_dict)
  moreover have "h'[a := ODict (AList.update (KStr ''api_def'') d es)]
      = (heap s)[a := ODict (AList.update (KStr ''api_def'') d es)] @ new"
    using a(1) by (simp add: h' list_update_append)
  ultimately show ?thesis using al h' by auto
qed

text \<open>
  C3. Two steps that refer to the same cached api id are resolved one after the other;
  the steps are objects other than the cache and outside the cached definition. Both
  resolutions return their step with a definition under \<^verbatim>\<open>"api_def"\<close>; the two definitions
  and the cached original have the same value; every object that a definition consists of
  was created by the resolution that attached it; and replacing any object that one
  resolution created by any other object changes neither the other definition's value nor
  the cached original's.
\<close>

theorem api_definitions_independent:
  assumes cache: "map_of (tests_def_mapping s) (KStr ''api'') = Some apis"
      "get_dict (heap s) apis = Some defs"
    and entry: "to_key name = Some k" "map_of defs k = Some block"
      "value_of (heap s) block = Some content"
    and step1: "get_dict (heap s) (PRef a1) = Some es1" "map_of es1 (KStr ''api'') = Some name"
    and step2: "get_dict (heap s) (PRef a2) = Some es2" "map_of es2 (KStr ''api'') = Some name"
    and apart: "a1 \<noteq> a2" "apis \<noteq> PRef a1" "apis \<noteq> PRef a2"
      "a1 \<notin> set (reach (length (heap s)) (heap s) block)"
      "a2 \<notin> set (reach (length (heap s)) (heap s) block)"
  shows "\<exists>s1 s2 d1 d2.
      load_teststep n w (PRef a1) s = Some (Inr (PRef a1), s1)
    \<and> load_teststep n w (PRef a2) s1 = Some (Inr (PRef a2), s2)
    \<and> get_dict (heap s2) (PRef a1) = Some (AList.update (KStr ''api_def'') d1 es1)
    \<and> get_dict (heap s2) (PRef a2) = Some (AList.update (KStr ''api_def'') d2 es2)
    \<and> value_of (heap s2) d1 = Some content \<and> value_of (heap s2) d2 = Some content
    \<and> value_of (heap s2) block = Some content
    \<and> set (reach (length (heap s2)) (heap s2) d1) \<subseteq> {length (heap s)..<length (heap s1)}
    \<and> set (reach (length (heap s2)) (heap s2) d2) \<subseteq> {length (heap s1)..<length (heap s2)}
    \<and> (\<forall>a ob. length (heap s) \<le> a \<and> a < length (heap s1) \<longrightarrow>
          value_of ((heap s2)[a := ob]) d2 = Some content
          \<and> value_of ((heap s2)[a := ob]) block = Some content)
    \<and> (\<forall>a ob. length (heap s1) \<le> a \<and> a < length (heap s2) \<longrightarrow>
          value_of ((heap s2)[a := ob]) d1 = Some content
          \<and> value_of ((heap s2)[a := ob]) block = Some content)"
proof -
  let ?h = "heap s"
  let ?L = "length ?h"
  from step1(1) step2(1) have lt: "a1 < ?L" "a2 < ?L" by (auto dest: get_dict_SomeD)
  \<comment> \<open>the first resolution\<close>
  from load_teststep_api_copy [OF cache entry step1, of n w] obtain d1 new1
    where al1: "alloc content ?h = (d1, ?h @ new1)"
      and run1: "load_teststep n w (PRef a1) s = Some (Inr (PRef a1),
          s\<lparr>heap := ?h[a1 := ODict (AList.update (KStr ''api_def'') d1 es1)] @ new1\<rparr>)"
    by blast
  let ?o1 = "ODict (AList.update (KStr ''api_def'') d1 es1)"
  let ?h1 = "?h[a1 := ?o1] @ new1"
  let ?s1 = "s\<lparr>heap := ?h1\<rparr>"
  from alloc_reify [OF al1] have r1: "\<And>pre ext m. length pre = ?L \<Longrightarrow> length new1 \<le> m \<Longrightarrow>
      reify m (pre @ new1 @ ext) d1 = Some content" by auto
  \<comment> \<open>the state it leaves has what the second resolution needs\<close>
  have cache1: "map_of (tests_def_mapping ?s1) (KStr ''api'') = Some apis" using cache(1) by simp
  have defs1: "get_dict (heap ?s1) apis = Some defs"
  proof -
    from cache(2) obtain c where c: "apis = PRef c" "c < ?L" "?h ! c = ODict defs"
      by (auto dest: get_dict_SomeD)
    with apart(2) have "c \<noteq> a1" by simp
    with c show ?thesis by (simp add: get_dict_def nth_append)
  qed
  have val1: "value_of (heap ?s1) block = Some content"
    using value_outside_one [OF entry(3) apart(4)] by simp
  have st2: "get_dict (heap ?s1) (PRef a2) = Some es2"
    using step2(1) apart(1) lt by (simp add: get_dict_def nth_append)
  from load_teststep_api_copy [OF cache1 defs1 entry(1,2) val1 st2 step2(2), of n w] obtain d2 new2
    where al2: "alloc content ?h1 = (d2, ?h1 @ new2)"
      and run2: "load_teststep n w (PRef a2) ?s1 = Some (Inr (PRef a2),
          ?s1\<lparr>heap := ?h1[a2 := ODict (AList.update (KStr ''api_def'') d2 es2)] @ new2\<rparr>)"
    by auto
  let ?o2 = "ODict (AList.update (KStr ''api_def'') d2 es2)"
  let ?pre = "?h[a1 := ?o1, a2 := ?o2]"
  let ?h2 = "?pre @ new1 @ new2"
  let ?s2 = "?s1\<lparr>heap := ?h2\<rparr>"
  have h2: "?h1[a2 := ?o2] @ new2 = ?h2" using lt by (simp add: list_update_append)
  from alloc_reify [OF al2] have r2: "\<And>pre ext m. length pre = length ?h1 \<Longrightarrow> length new2 \<le> m \<Longrightarrow>
      reify m (pre @ new2 @ ext) d2 = Some content" by auto
  have run2': "load_teststep n w (PRef a2) ?s1 = Some (Inr (PRef a2), ?s2)"
    using run2 unfolding h2 .
  \<comment> \<open>the final store\<close>
  have g1: "get_dict ?h2 (PRef a1) = Some (AList.update (KStr ''api_def'') d1 es1)"
    using lt apart(1) by (simp add: get_dict_def nth_append)
  have g2: "get_dict ?h2 (PRef a2) = Some (AList.update (KStr ''api_def'') d2 es2)"
    using lt by (simp add: get_dict_def nth_append)
  have v1: "value_of ?h2 d1 = Some content"
    unfolding value_of_def using r1 [of ?pre "length ?h2" new2] by simp
  have v2: "value_of ?h2 d2 = Some content"
    unfolding value_of_def using r2 [of "?pre @ new1" "length ?h2" "[]"] by simp
  have vb: "value_of ?h2 block = Some content"
    by (rule value_outside [OF entry(3) apart(4,5)])
  have cl1: "\<forall>b. ?L \<le> b \<longrightarrow> b < length ?h2 \<longrightarrow> refs_ge ?L (?h2 ! b)"
  proof (intro allI impI)
    fix b assume b: "?L \<le> b" "b < length ?h2"
    from alloc_refs [OF al1] have n1: "\<forall>ob \<in> set new1. refs_ge ?L ob" by auto
    from alloc_refs [OF al2] have "\<forall>ob \<in> set new2. refs_ge (length ?h1) ob" by auto
    then have n2: "\<forall>ob \<in> set new2. refs_ge ?L ob" by (auto intro: refs_ge_mono)
    from b have "?h2 ! b = (new1 @ new2) ! (b - ?L)" by (simp add: nth_append)
    moreover from b have "b - ?L < length (new1 @ new2)" by auto
    then have "(new1 @ new2) ! (b - ?L) \<in> set (new1 @ new2)" by (rule nth_mem)
    ultimately show "refs_ge ?L (?h2 ! b)" using n1 n2 by auto
  qed
  have cl2: "\<forall>b. length ?h1 \<le> b \<longrightarrow> b < length ?h2 \<longrightarrow> refs_ge (length ?h1) (?h2 ! b)"
  proof (intro allI impI)
    fix b assume b: "length ?h1 \<le> b" "b < length ?h2"
    from alloc_refs [OF al2] have n2: "\<forall>ob \<in> set new2. refs_ge (length ?h1) ob" by auto
    from b have "?h2 ! b = new2 ! (b - length ?h1)" by (auto simp: nth_append)
    moreover from b have "new2 ! (b - length ?h1) \<in> set new2" by (intro nth_mem) auto
    ultimately show "refs_ge (length ?h1) (?h2 ! b)" using n2 by auto
  qed
  have in1: "set (reach (length ?h2) ?h2 d1) \<subseteq> {?L..<length ?h1}"
  proof -
    from alloc_refs [OF al1] have "val_ge ?L d1" by auto
    from reach_ge_aux(1) [OF cl1 this] have "\<forall>a \<in> set (reach (length ?h2) ?h2 d1). ?L \<le> a" .
    moreover from r1 [of ?pre "length new1" "[]"]
    have "reify (length new1) (?pre @ new1) d1 = Some content" by simp
    from reach_bounded_aux(1) [OF this, of "length ?h2" new2]
    have "set (reach (length ?h2) ?h2 d1) \<subseteq> {..<length ?h1}" by simp
    ultimately show ?thesis by auto
  qed
  have in2: "set (reach (length ?h2) ?h2 d2) \<subseteq> {length ?h1..<length ?h2}"
  proof -
    from alloc_refs [OF al2] have "val_ge (length ?h1) d2" by auto
    from reach_ge_aux(1) [OF cl2 this]
    have "\<forall>a \<in> set (reach (length ?h2) ?h2 d2). length ?h1 \<le> a" .
    moreover from v2 have "reify (length ?h2) ?h2 d2 = Some content" by (simp add: value_of_def)
    from reach_bounded_aux(1) [OF this, of "length ?h2" "[]"]
    have "set (reach (length ?h2) ?h2 d2) \<subseteq> {..<length ?h2}" by simp
    ultimately show ?thesis by auto
  qed
  have m1: "value_of (?h2[a := ob]) d2 = Some content \<and> value_of (?h2[a := ob]) block = Some content"
    if "?L \<le> a \<and> a < length ?h1" for a ob
  proof -
    from that have "a - ?L < length new1" by auto
    with that have e: "?h2[a := ob] = ?pre @ new1[a - ?L := ob] @ new2"
      by (simp add: list_update_append)
    have "value_of (?pre @ new1[a - ?L := ob] @ new2) d2 = Some content"
      unfolding value_of_def
      using r2 [of "?pre @ new1[a - ?L := ob]" "length (?pre @ new1[a - ?L := ob] @ new2)" "[]"]
      by simp
    moreover have "value_of (?pre @ new1[a - ?L := ob] @ new2) block = Some content"
      by (rule value_outside [OF entry(3) apart(4,5)])
    ultimately show ?thesis unfolding e by simp
  qed
  have m2: "value_of (?h2[a := ob]) d1 = Some content \<and> value_of (?h2[a := ob]) block = Some content"
    if "length ?h1 \<le> a \<and> a < length ?h2" for a ob
  proof -
    from that have "\<not> a < ?L" "\<not> a - ?L < length new1" "a - ?L - length new1 = a - length ?h1"
      by auto
    then have e: "?h2[a := ob] = ?pre @ new1 @ new2[a - length ?h1 := ob]"
      by (simp add: list_update_append)
    have "value_of (?pre @ new1 @ new2[a - length ?h1 := ob]) d1 = Some content"
      unfolding value_of_def
      using r1 [of ?pre "length (?pre @ new1 @ new2[a - length ?h1 := ob])" "new2[a - length ?h1 := ob]"]
      by simp
    moreover have "value_of (?pre @ new1 @ new2[a - length ?h1 := ob]) block = Some content"
      by (rule value_outside [OF entry(3) apart(4,5)])
    ultimately show ?thesis unfolding e by simp
  qed
  show ?thesis
    apply (rule exI [of _ ?s1], rule exI [of _ ?s2], rule exI [of _ d1], rule exI [of _ d2])
    using run1 run2' g1 g2 v1 v2 vb in1 in2 m1 m2 by simp
qed

theorem load_teststep_api_witness:
  "(\<exists>s'. load_teststep 0 empty_world (PRef 5) api_state = Some (Inl ApiNotFound, s'))
   \<and> (\<exists>api_def s'. load_teststep 0 empty_world (PRef 4) api_state = Some (Inr (PRef 4), s')
         \<and> get_dict (heap s') (PRef 4)
             = Some [(KStr ''name'', PStr ''first''), (KStr ''api'', PStr ''get_user''),
                     (KStr ''api_def'', api_def)]
         \<and> value_of (heap s') api_def
             = Some (JDict [(KStr ''request'', JDict [(KStr ''url'', JStr ''/user'')])]))"
proof -
  have cache: "map_of (tests_def_mapping api_state) (KStr ''api'') = Some (PRef 0)"
    "get_dict (heap api_state) (PRef 0) = Some [(KStr ''get_user'', PRef 2)]"
    by (simp_all add: api_state_def init_state_def get_dict_def)
  have s5: "get_dict (heap api_state) (PRef 5) = Some [(KStr ''api'', PStr ''missing'')]"
    and s4: "get_dict (heap api_state) (PRef 4)
      = Some [(KStr ''name'', PStr ''first''), (KStr ''api'', PStr ''get_user'')]"
    by (simp_all add: api_state_def init_state_def get_dict_def)
  have v: "value_of (heap api_state) (PRef 2)
      = Some (JDict [(KStr ''request'', JDict [(KStr ''url'', JStr ''/user'')])])"
    by code_simp
  from load_teststep_api [OF s5 _ _ cache, of "PStr ''missing''" "KStr ''missing''" 0 empty_world]
  have a: "\<exists>s'. load_teststep 0 empty_world (PRef 5) api_state = Some (Inl ApiNotFound, s')"
    by simp
  from load_teststep_api [OF s4 _ _ cache, of "PStr ''get_user''" "KStr ''get_user''" 0 empty_world] v
  have b: "\<exists>api_def s'. load_teststep 0 empty_world (PRef 4) api_state = Some (Inr (PRef 4), s')
         \<and> get_dict (heap s') (PRef 4)
             = Some (AList.update (KStr ''api_def'') api_def
                 [(KStr ''name'', PStr ''first''), (KStr ''api'', PStr ''get_user'')])
         \<and> value_of (heap s') api_def
             = Some (JDict [(KStr ''request'', JDict [(KStr ''url'', JStr ''/user'')])])"
    by simp
  from a b show ?thesis by simp
qed

theorem load_api_items_without_id_witness:
  "\<exists>m' s'. load_api_items [PRef 2, PRef 4] [] two_apis = (Inr m', s')
      \<and> map_of m' KNone = Some (PRef 5)
      \<and> logged s' = [Warn_api_duplicated KNone]"
proof -
  have d: "distinct [PRef 2, PRef 4]" by simp
  have l: "\<forall>item \<in> set [PRef 2, PRef 4]. lacks_id (heap two_apis) item"
    by (simp add: two_apis_def init_state_def lacks_id_def last_pair_def get_dict_def)
  have lp: "last_pair (heap two_apis) (PRef 4) = Some (KStr ''api'', PRef 5)"
    and lg: "logged two_apis = []"
    by (simp_all add: two_apis_def init_state_def last_pair_def get_dict_def)
  from load_api_items_without_id [OF d l, of "[]"]
  obtain m' s' where "load_api_items [PRef 2, PRef 4] [] two_apis = (Inr m', s')"
    "map_of m' KNone = map_option snd (last_pair (heap two_apis) (last [PRef 2, PRef 4]))"
    "logged s' = logged two_apis @
       replicate (length [PRef 2, PRef 4] - (if KNone \<in> fst ` set [] then 0 else 1))
         (Warn_api_duplicated KNone)"
    by (auto simp del: load_api_items.simps)
  then show ?thesis
    by (intro exI [of _ m'] exI [of _ s']) (simp add: lp lg del: load_api_items.simps)
qed

theorem load_test_files_skips_witness:
  "load_test_files 0 (tests_world bad_block) [''/work/tests/a.yml'', ''/work/tests/b.json''] [] init_state
     = load_test_files 0 (tests_world bad_block) [''/work/tests/b.json''] [] after_failure
   \<and> map_option fst (load_test_files 0 (tests_world bad_block) [''/work/tests/b.json''] [] after_failure)
     = Some (Inr [PRef 9])
   \<and> map_option fst (load_test_files 0 (tests_world JNone)
        [''/work/tests/a.yml'', ''/work/tests/b.json''] [] init_state) = Some (Inl FileFormatError)
   \<and> (\<exists>p \<in> set [''/work/tests/a.yml'', ''/work/tests/b.json''].
        \<exists>s0 s1. load_file (tests_world JNone) p s0 = (Inl FileFormatError, s1))"
proof -
  let ?w = "tests_world bad_block" and ?a = "''/work/tests/a.yml''" and ?b = "''/work/tests/b.json''"
  have lf: "load_file ?w ?a init_state = (Inr (PRef 3), after_read)"
    unfolding after_read_def by code_simp
  have lt: "load_testcase 0 ?w (PRef 3) after_read = Some (Inl FileFormatError, after_failure)"
    unfolding after_failure_def after_read_def by code_simp
  have one: "load_test_files 0 ?w [?a, ?b] [] init_state = load_test_files 0 ?w [?b] [] after_failure"
    using load_test_files_skips [of ?w ?a init_state "PRef 3" after_read 0 after_failure "[?b]" "[]"]
      lf lt by simp
  have two: "map_option fst (load_test_files 0 ?w [?b] [] after_failure) = Some (Inr [PRef 9])"
    unfolding after_failure_def after_read_def by code_simp
  let ?v = "tests_world JNone"
  obtain s1 where fail: "load_file ?v ?a init_state = (Inl FileFormatError, s1)"
  proof -
    have "fst (load_file ?v ?a init_state) = Inl FileFormatError" by code_simp
    then show ?thesis using that by (cases "load_file ?v ?a init_state") auto
  qed
  have three: "load_test_files 0 ?v [?a, ?b] [] init_state = Some (Inl FileFormatError, s1)"
    using load_test_files_skips [of ?v ?a init_state _ s1 0 _ "[?b]" "[]" FileFormatError] fail
    by simp
  have four: "\<exists>p \<in> set [?a, ?b]. \<exists>s0 s1. load_file ?v p s0 = (Inl FileFormatError, s1)"
    using load_test_files_skips [of ?v ?a init_state _ s1 0 _ "[?a, ?b]" "[]" FileFormatError s1]
      three by blast
  from one two three four fail show ?thesis by simp
qed

lemma returned_value:
  "(case x of Some (Inr a, b) \<Rightarrow> True | _ \<Rightarrow> False) \<Longrightarrow> \<exists>a b. x = Some (Inr a, b)"
  by (auto split: option.splits sum.splits prod.splits)

lemma returned_pair:
  "(case x of (Inr a, b) \<Rightarrow> True | _ \<Rightarrow> False) \<Longrightarrow> \<exists>a b. x = (Inr a, b)"
  by (auto split: sum.splits prod.splits)

theorem load_testcase_config_merge_witness:
  "\<exists>testcase s' c t. load_testcase 0 empty_world (PRef 7) two_configs = Some (Inr testcase, s')
     \<and> get_dict (heap s') testcase = Some [(KStr ''config'', c), (KStr ''teststeps'', t)]
     \<and> get_dict (heap s') c = Some [(KStr ''name'', PStr ''y''), (KStr ''variables'', PRef 4)]
     \<and> value_of (heap two_configs) (PRef 4) = Some (JList [])"
proof -
  have it: "py_iter (heap two_configs) (PRef 7) = Inr [PRef 3, PRef 6]"
    and u: "unshared (heap two_configs) [PRef 3, PRef 6]"
    and cb: "config_blocks (heap two_configs) [PRef 3, PRef 6]
      = [[(KStr ''name'', PStr ''x'')], [(KStr ''name'', PStr ''y''), (KStr ''variables'', PRef 4)]]"
    and v: "value_of (heap two_configs) (PRef 4) = Some (JList [])"
    by code_simp+
  have "case load_testcase 0 empty_world (PRef 7) two_configs of
      Some (Inr x, y) \<Rightarrow> True | _ \<Rightarrow> False" by code_simp
  then obtain testcase s' where run: "load_testcase 0 empty_world (PRef 7) two_configs = Some (Inr testcase, s')"
    by (blast dest: returned_value)
  from load_testcase_config_merge [OF it u run] obtain c t
    where "get_dict (heap s') testcase = Some [(KStr ''config'', c), (KStr ''teststeps'', t)]"
      "get_dict (heap s') c = Some (foldl dict_update [] (config_blocks (heap two_configs) [PRef 3, PRef 6]))"
    by blast
  moreover have "foldl dict_update [] (config_blocks (heap two_configs) [PRef 3, PRef 6])
      = [(KStr ''name'', PStr ''y''), (KStr ''variables'', PRef 4)]"
    unfolding cb by (simp add: dict_update_def)
  ultimately show ?thesis using run v by metis
qed

theorem load_locust_blocks_weights_witness:
  "\<exists>config' s' c1 t1 s1 h1 s2.
       load_locust_blocks 0 empty_world [PRef 7, PRef 9, PRef 11] [] [] weighted_api_steps
         = Some (Inr (config', [PRef 8, PRef 8, PRef 8, PRef 10]), s')
     \<and> count_list (concat (map (weighted (heap weighted_api_steps)) [PRef 7, PRef 9, PRef 11])) (PRef 8) = 3
     \<and> load_locust_blocks 0 empty_world [PRef 7] [] [] weighted_api_steps = Some (Inr (c1, t1), s1)
     \<and> popitem (PRef 9) (heap s1) = Inr ((KStr ''test'', PRef 8), h1)
     \<and> load_teststep 0 empty_world (PRef 8) (s1\<lparr>heap := h1\<rparr>) = Some (Inr (PRef 8), s2)
     \<and> load_locust_blocks 0 empty_world [PRef 11] c1 (t1 @ replicate 3 (PRef 8)) s2
         = Some (Inr (config', [PRef 8, PRef 8, PRef 8, PRef 10]), s')
     \<and> get_dict (heap s2) (PRef 8)
         = Some [(KStr ''name'', PStr ''a''), (KStr ''api'', PStr ''get_user''),
                 (KStr ''weight'', PInt 3), (KStr ''api_def'', PRef 14)]
     \<and> get_dict (heap s') (PRef 8)
         = Some [(KStr ''name'', PStr ''a''), (KStr ''api'', PStr ''get_user''),
                 (KStr ''weight'', PInt 3), (KStr ''api_def'', PRef 14)]
     \<and> length (heap weighted_api_steps) = 13 \<and> length (heap s') = 15"
proof -
  let ?items = "[PRef 7, PRef 9, PRef 11]"
  let ?s = weighted_api_steps
  let ?block = "[(KStr ''name'', PStr ''a''), (KStr ''api'', PStr ''get_user''), (KStr ''weight'', PInt 3)]"
  have u: "unshared (heap ?s) ?items"
    and e: "entry_of (heap ?s) (PRef 9) = Some (KStr ''test'', PRef 8)"
    and b: "get_dict (heap ?s) (PRef 8) = Some ?block"
    and wt: "concat (map (weighted (heap ?s)) ?items) = [PRef 8, PRef 8, PRef 8, PRef 10]"
    and len: "length (heap ?s) = 13"
    by code_simp+
  have rc: "range_count (dict_get ?block ''weight'' (PInt 1)) = Some 3" by (simp add: dict_get_def)
  have fin: "map_option (\<lambda>r. (get_dict (heap (snd r)) (PRef 8), length (heap (snd r))))
        (load_locust_blocks 0 empty_world ?items [] [] ?s)
      = Some (Some (?block @ [(KStr ''api_def'', PRef 14)]), 15)"
    by code_simp
  have "case load_locust_blocks 0 empty_world ?items [] [] ?s of
      Some (Inr x, y) \<Rightarrow> True | _ \<Rightarrow> False" by code_simp
  then obtain res s' where "load_locust_blocks 0 empty_world ?items [] [] ?s = Some (Inr res, s')"
    by (blast dest: returned_value)
  then obtain config' tests' where run:
    "load_locust_blocks 0 empty_world ?items [] [] ?s = Some (Inr (config', tests'), s')"
    by (cases res) blast
  from fin have f: "get_dict (heap s') (PRef 8) = Some (?block @ [(KStr ''api_def'', PRef 14)])"
    "length (heap s') = 15" unfolding run by simp_all
  from load_locust_blocks_weights [OF u run]
  have t: "tests' = [] @ concat (map (weighted (heap ?s)) ?items)"
    and c: "\<forall>item \<in> set ?items. \<forall>b block weight.
           entry_of (heap ?s) item = Some (KStr ''test'', PRef b)
           \<and> get_dict (heap ?s) (PRef b) = Some block
           \<and> range_count (dict_get block ''weight'' (PInt 1)) = Some weight
           \<longrightarrow> weighted (heap ?s) item = replicate weight (PRef b)
             \<and> count_list (concat (map (weighted (heap ?s)) ?items)) (PRef b) = weight"
    and o: "\<forall>pre item post b.
           ?items = pre @ item # post \<and> entry_of (heap ?s) item = Some (KStr ''test'', PRef b)
           \<longrightarrow> (\<exists>c1 t1 s1 h1 s2 block weight.
                  load_locust_blocks 0 empty_world pre [] [] ?s = Some (Inr (c1, t1), s1)
                \<and> popitem item (heap s1) = Inr ((KStr ''test'', PRef b), h1)
                \<and> get_dict h1 (PRef b) = get_dict (heap ?s) (PRef b)
                \<and> load_teststep 0 empty_world (PRef b) (s1\<lparr>heap := h1\<rparr>) = Some (Inr (PRef b), s2)
                \<and> get_dict (heap ?s) (PRef b) = Some block
                \<and> range_count (dict_get block ''weight'' (PInt 1)) = Some weight
                \<and> load_locust_blocks 0 empty_world post c1 (t1 @ replicate weight (PRef b)) s2
                    = Some (Inr (config', tests'), s')
                \<and> get_dict (heap s') (PRef b) = get_dict (heap s2) (PRef b))"
    by blast+
  from c e b rc have cnt: "count_list (concat (map (weighted (heap ?s)) ?items)) (PRef 8) = 3"
    by (metis list.set_intros(1) list.set_intros(2))
  from t wt have tests': "tests' = [PRef 8, PRef 8, PRef 8, PRef 10]" by (simp only: append_Nil)
  have sp: "?items = [PRef 7] @ PRef 9 # [PRef 11]" by simp
  from o [rule_format, of "[PRef 7]" "PRef 9" "[PRef 11]" 8] sp e
  obtain c1 t1 s1 h1 s2 block weight where
    d: "load_locust_blocks 0 empty_world [PRef 7] [] [] ?s = Some (Inr (c1, t1), s1)"
      "popitem (PRef 9) (heap s1) = Inr ((KStr ''test'', PRef 8), h1)"
      "load_teststep 0 empty_world (PRef 8) (s1\<lparr>heap := h1\<rparr>) = Some (Inr (PRef 8), s2)"
      "get_dict (heap ?s) (PRef 8) = Some block"
      "range_count (dict_get block ''weight'' (PInt 1)) = Some weight"
      "load_locust_blocks 0 empty_world [PRef 11] c1 (t1 @ replicate weight (PRef 8)) s2
         = Some (Inr (config', tests'), s')"
      "get_dict (heap s') (PRef 8) = get_dict (heap s2) (PRef 8)"
    by blast
  from d(4,5) b rc have w3: "weight = 3" by simp
  from d(7) f(1) have g2: "get_dict (heap s2) (PRef 8) = Some (?block @ [(KStr ''api_def'', PRef 14)])"
    by simp
  have ap: "?block @ [(KStr ''api_def'', PRef 14)]
      = [(KStr ''name'', PStr ''a''), (KStr ''api'', PStr ''get_user''),
         (KStr ''weight'', PInt 3), (KStr ''api_def'', PRef 14)]" by simp
  show ?thesis
    apply (rule exI [of _ config'], rule exI [of _ s'], rule exI [of _ c1], rule exI [of _ t1],
        rule exI [of _ s1], rule exI [of _ h1], rule exI [of _ s2])
    using run [unfolded tests'] cnt d(1,2,3) d(6) [unfolded tests' w3] g2 [unfolded ap]
      f(1) [unfolded ap] len f(2)
    by blast
qed

theorem load_testcase_consumes_input_witness:
  "(\<exists>testcase s'. load_testcase 0 empty_world (PRef 7) two_configs = Some (Inr testcase, s')
      \<and> get_dict (heap s') (PRef 3) = Some [] \<and> get_dict (heap s') (PRef 6) = Some [])
   \<and> (\<exists>res s'. load_locust_blocks 0 empty_world [PRef 3, PRef 5, PRef 7] [] [] weighted_steps
         = Some (Inr res, s')
      \<and> get_dict (heap s') (PRef 3) = Some [] \<and> get_dict (heap s') (PRef 5) = Some []
      \<and> get_dict (heap s') (PRef 7) = Some [])
   \<and> (\<exists>m' s'. load_api_items [PRef 2, PRef 4] [] two_apis = (Inr m', s')
      \<and> get_dict (heap s') (PRef 2) = Some [] \<and> get_dict (heap s') (PRef 4) = Some [])"
proof (intro conjI)
  have it: "py_iter (heap two_configs) (PRef 7) = Inr [PRef 3, PRef 6]" by code_simp
  have "case load_testcase 0 empty_world (PRef 7) two_configs of
      Some (Inr x, y) \<Rightarrow> True | _ \<Rightarrow> False" by code_simp
  then obtain testcase s' where run: "load_testcase 0 empty_world (PRef 7) two_configs = Some (Inr testcase, s')"
    by (blast dest: returned_value)
  with it load_testcase_consumes_input [where n = 0 and w = empty_world and raw_testcase = "PRef 7"
      and s = two_configs and testcase = testcase and s' = s' and items = "[PRef 3, PRef 6]"]
  have "\<forall>item \<in> set [PRef 3, PRef 6]. get_dict (heap s') item = Some []" by blast
  then have "get_dict (heap s') (PRef 3) = Some [] \<and> get_dict (heap s') (PRef 6) = Some []"
    by simp
  with run
  show "\<exists>testcase s'. load_testcase 0 empty_world (PRef 7) two_configs = Some (Inr testcase, s')
      \<and> get_dict (heap s') (PRef 3) = Some [] \<and> get_dict (heap s') (PRef 6) = Some []"
    by blast
next
  let ?items = "[PRef 3, PRef 5, PRef 7]"
  have u: "unshared (heap weighted_steps) ?items" by code_simp
  have "case load_locust_blocks 0 empty_world ?items [] [] weighted_steps of
      Some (Inr x, y) \<Rightarrow> True | _ \<Rightarrow> False" by code_simp
  then obtain res s' where run:
    "load_locust_blocks 0 empty_world ?items [] [] weighted_steps = Some (Inr res, s')"
    by (blast dest: returned_value)
  with u load_testcase_consumes_input [where n = 0 and w = empty_world and s = weighted_steps
      and s' = s' and items = ?items and config = "[]" and tests = "[]" and res = res]
  have "\<forall>item \<in> set ?items. get_dict (heap s') item = Some []" by blast
  then have "get_dict (heap s') (PRef 3) = Some [] \<and> get_dict (heap s') (PRef 5) = Some []
      \<and> get_dict (heap s') (PRef 7) = Some []" by simp
  with run
  show "\<exists>res s'. load_locust_blocks 0 empty_world ?items [] [] weighted_steps = Some (Inr res, s')
      \<and> get_dict (heap s') (PRef 3) = Some [] \<and> get_dict (heap s') (PRef 5) = Some []
      \<and> get_dict (heap s') (PRef 7) = Some []"
    by blast
next
  let ?items = "[PRef 2, PRef 4]"
  have e: "list_all (\<lambda>item. entry_of (heap two_apis) item \<noteq> None) ?items" by code_simp
  have "case load_api_items ?items [] two_apis of (Inr x, y) \<Rightarrow> True | _ \<Rightarrow> False" by code_simp
  from returned_pair [OF this]
  obtain m' s' where run: "load_api_items ?items [] two_apis = (Inr m', s')" by blast
  with e load_testcase_consumes_input [where s = two_apis and s' = s' and items = ?items
      and m = "[]" and m' = m']
  have "\<forall>item \<in> set ?items. get_dict (heap s') item = Some []" by blast
  then have "get_dict (heap s') (PRef 2) = Some [] \<and> get_dict (heap s') (PRef 4) = Some []"
    by simp
  with run
  show "\<exists>m' s'. load_api_items ?items [] two_apis = (Inr m', s')
      \<and> get_dict (heap s') (PRef 2) = Some [] \<and> get_dict (heap s') (PRef 4) = Some []"
    by blast
qed

theorem api_definitions_independent_witness:
  "\<exists>s1 s2. load_teststep 0 empty_world (PRef 4) shared_api = Some (Inr (PRef 4), s1)
     \<and> load_teststep 0 empty_world (PRef 5) s1 = Some (Inr (PRef 5), s2)
     \<and> length (heap shared_api) = 6 \<and> length (heap s1) = 8 \<and> length (heap s2) = 10
     \<and> get_dict (heap s2) (PRef 4)
         = Some [(KStr ''name'', PStr ''first''), (KStr ''api'', PStr ''get_user''),
                 (KStr ''api_def'', PRef 7)]
     \<and> get_dict (heap s2) (PRef 5)
         = Some [(KStr ''name'', PStr ''second''), (KStr ''api'', PStr ''get_user''),
                 (KStr ''api_def'', PRef 9)]
     \<and> value_of (heap s2) (PRef 7)
         = Some (JDict [(KStr ''request'', JDict [(KStr ''url'', JStr ''/user'')])])
     \<and> value_of (heap s2) (PRef 9)
         = Some (JDict [(KStr ''request'', JDict [(KStr ''url'', JStr ''/user'')])])
     \<and> value_of (heap s2) (PRef 2)
         = Some (JDict [(KStr ''request'', JDict [(KStr ''url'', JStr ''/user'')])])
     \<and> value_of ((heap s2)[7 := ODict []]) (PRef 9)
         = Some (JDict [(KStr ''request'', JDict [(KStr ''url'', JStr ''/user'')])])
     \<and> value_of ((heap s2)[7 := ODict []]) (PRef 2)
         = Some (JDict [(KStr ''request'', JDict [(KStr ''url'', JStr ''/user'')])])
     \<and> value_of ((heap s2)[8 := ODict []]) (PRef 7)
         = Some (JDict [(KStr ''request'', JDict [(KStr ''url'', JStr ''/user'')])])
     \<and> value_of ((heap s2)[8 := ODict []]) (PRef 2)
         = Some (JDict [(KStr ''request'', JDict [(KStr ''url'', JStr ''/user'')])])"
proof -
  let ?c = "JDict [(KStr ''request'', JDict [(KStr ''url'', JStr ''/user'')])]"
  let ?es1 = "[(KStr ''name'', PStr ''first''), (KStr ''api'', PStr ''get_user'')]"
  let ?es2 = "[(KStr ''name'', PStr ''second''), (KStr ''api'', PStr ''get_user'')]"
  have cache: "map_of (tests_def_mapping shared_api) (KStr ''api'') = Some (PRef 0)"
    "get_dict (heap shared_api) (PRef 0) = Some [(KStr ''get_user'', PRef 2)]"
    by (simp_all add: shared_api_def init_state_def get_dict_def)
  have entry: "to_key (PStr ''get_user'') = Some (KStr ''get_user'')"
    "map_of [(KStr ''get_user'', PRef 2)] (KStr ''get_user'') = Some (PRef 2)"
    by simp_all
  have v: "value_of (heap shared_api) (PRef 2) = Some ?c" by code_simp
  have st1: "get_dict (heap shared_api) (PRef 4) = Some ?es1" "map_of ?es1 (KStr ''api'') = Some (PStr ''get_user'')"
    and st2: "get_dict (heap shared_api) (PRef 5) = Some ?es2" "map_of ?es2 (KStr ''api'') = Some (PStr ''get_user'')"
    by (simp_all add: shared_api_def init_state_def get_dict_def)
  have apart: "(4::nat) \<noteq> 5" "PRef 0 \<noteq> PRef 4" "PRef 0 \<noteq> PRef 5"
    "4 \<notin> set (reach (length (heap shared_api)) (heap shared_api) (PRef 2))"
    "5 \<notin> set (reach (length (heap shared_api)) (heap shared_api) (PRef 2))"
    by code_simp+
  have len0: "length (heap shared_api) = 6" by (simp add: shared_api_def)
  have len1: "map_option (\<lambda>r. length (heap (snd r))) (load_teststep 0 empty_world (PRef 4) shared_api)
      = Some 8" by code_simp
  have both: "map_option (\<lambda>r. (length (heap (snd r)), get_dict (heap (snd r)) (PRef 4),
          get_dict (heap (snd r)) (PRef 5)))
        (Option.bind (load_teststep 0 empty_world (PRef 4) shared_api) resolve_both)
      = Some (10, Some (?es1 @ [(KStr ''api_def'', PRef 7)]), Some (?es2 @ [(KStr ''api_def'', PRef 9)]))"
    by code_simp
  from api_definitions_independent [OF cache entry v st1 st2 apart, of 0 empty_world]
  obtain s1 s2 d1 d2 where
    run1: "load_teststep 0 empty_world (PRef 4) shared_api = Some (Inr (PRef 4), s1)"
    and run2: "load_teststep 0 empty_world (PRef 5) s1 = Some (Inr (PRef 5), s2)"
    and g1: "get_dict (heap s2) (PRef 4) = Some (AList.update (KStr ''api_def'') d1 ?es1)"
    and g2: "get_dict (heap s2) (PRef 5) = Some (AList.update (KStr ''api_def'') d2 ?es2)"
    and vs: "value_of (heap s2) d1 = Some ?c" "value_of (heap s2) d2 = Some ?c"
      "value_of (heap s2) (PRef 2) = Some ?c"
    and m1: "\<forall>a ob. length (heap shared_api) \<le> a \<and> a < length (heap s1) \<longrightarrow>
          value_of ((heap s2)[a := ob]) d2 = Some ?c
          \<and> value_of ((heap s2)[a := ob]) (PRef 2) = Some ?c"
    and m2: "\<forall>a ob. length (heap s1) \<le> a \<and> a < length (heap s2) \<longrightarrow>
          value_of ((heap s2)[a := ob]) d1 = Some ?c
          \<and> value_of ((heap s2)[a := ob]) (PRef 2) = Some ?c"
    by blast
  from len1 have l1: "length (heap s1) = 8" unfolding run1 by simp
  from both have b: "length (heap s2) = 10"
    "get_dict (heap s2) (PRef 4) = Some (?es1 @ [(KStr ''api_def'', PRef 7)])"
    "get_dict (heap s2) (PRef 5) = Some (?es2 @ [(KStr ''api_def'', PRef 9)])"
    unfolding run1 by (simp_all add: resolve_both_def run2)
  from g1 b(2) have d1: "d1 = PRef 7" by simp
  from g2 b(3) have d2: "d2 = PRef 9" by simp
  from m1 [rule_format, of 7 "ODict []"] len0 l1
  have x1: "value_of ((heap s2)[7 := ODict []]) (PRef 9) = Some ?c"
    "value_of ((heap s2)[7 := ODict []]) (PRef 2) = Some ?c"
    by (simp_all add: d2)
  from m2 [rule_format, of 8 "ODict []"] l1 b(1)
  have x2: "value_of ((heap s2)[8 := ODict []]) (PRef 7) = Some ?c"
    "value_of ((heap s2)[8 := ODict []]) (PRef 2) = Some ?c"
    by (simp_all add: d1)
  from b(2,3) have g: "get_dict (heap s2) (PRef 4) = Some [(KStr ''name'', PStr ''first''),
      (KStr ''api'', PStr ''get_user''), (KStr ''api_def'', PRef 7)]"
    "get_dict (heap s2) (PRef 5) = Some [(KStr ''name'', PStr ''second''),
      (KStr ''api'', PStr ''get_user''), (KStr ''api_def'', PRef 9)]"
    by simp_all
  show ?thesis
    apply (rule exI [of _ s1], rule exI [of _ s2])
    using run1 run2 len0 l1 b(1) g vs [unfolded d1 d2] x1 x2 by blast
qed

end
